theory Spec2Isabelle
  imports Main
begin

section \<open>The trajectory LMDB dataset (ocpmodels/datasets/trajectory\_lmdb.py)\<close>

text \<open>
  A shallow embedding of \<^verbatim>\<open>TrajectoryLmdbDataset\<close> and \<^verbatim>\<open>data_list_collater\<close>.
  Python exceptions are values of the type \<open>exn\<close>; a function that may raise returns
  \<open>exn + 'a\<close>, with \<open>Inl\<close> for the exception. Python integers are \<open>int\<close>; positions in
  a list that the code has already shown to be non-negative are \<open>nat\<close>.
\<close>

subsection \<open>Python values and library functions\<close>

datatype exn =
  AssertionError | AttributeError | IndexError | NotImplementedError | TypeError
  | ZeroDivisionError | UnpicklingError | LmdbError | OtherError string

type_synonym bytes = string
type_synonym path = string

text \<open>An LMDB store, as far as the code reads it: \<^verbatim>\<open>env.begin().get(key)\<close>.\<close>

type_synonym store = "bytes \<rightharpoonup> bytes"

text \<open>
  A deserialised record (a torch-geometric \<^verbatim>\<open>Data\<close> object). Only the two attributes
  the code touches are named; the rest is \<open>payload\<close>. The attribute \<^verbatim>\<open>id\<close> is
  \<open>id_attr\<close> here (\<open>None\<close>: not set). \<open>edge_index\<close> is what evaluating
  \<^verbatim>\<open>data.edge_index\<close> gives: an exception, Python's \<^verbatim>\<open>None\<close>, or a tensor given
  as the list of its rows.
\<close>

record data_object =
  id_attr :: "string option"
  edge_index :: "exn + int list list option"
  payload :: string

text \<open>
  What \<^verbatim>\<open>pickle.loads\<close> or a transform may return: an integer, a record, a value of
  another built-in type without instance attributes (\<^verbatim>\<open>None\<close>, a string, a list), or
  any other object, given with its \<^verbatim>\<open>id\<close> attribute (\<open>None\<close>: not set) and the rest of
  its state.
\<close>

datatype pyobj = PyInt int | PyData data_object | PyBuiltin string | PyObject "string option" string

text \<open>
  The collaborators the module calls and does not define: \<^verbatim>\<open>lmdb.open\<close>,
  \<^verbatim>\<open>pickle.loads\<close> on a byte string, and \<^verbatim>\<open>Batch.from_data_list\<close>.
\<close>

record batch =
  batch_items :: "data_object list"
  neighbors :: "int list option"

record externals =
  lmdb_open :: "path \<Rightarrow> exn + store"
  loads :: "bytes \<Rightarrow> exn + pyobj"
  from_data_list :: "data_object list \<Rightarrow> exn + batch"

text \<open>\<^verbatim>\<open>pickle.loads(x)\<close> where \<^verbatim>\<open>x\<close> is the result of \<^verbatim>\<open>get\<close>: \<^verbatim>\<open>None\<close> is not
  bytes-like, which is a \<^verbatim>\<open>TypeError\<close>.\<close>

definition pickle_loads :: "externals \<Rightarrow> bytes option \<Rightarrow> exn + pyobj" where
  "pickle_loads ext x = (case x of None \<Rightarrow> Inl TypeError | Some b \<Rightarrow> loads ext b)"

text \<open>\<^verbatim>\<open>range(start, stop, step)\<close> as a list, for the positive steps the code uses
  (\<open>1\<close> and \<^verbatim>\<open>world_size\<close>, the latter after \<^verbatim>\<open>%\<close> has excluded zero).\<close>

function py_range :: "int \<Rightarrow> int \<Rightarrow> int \<Rightarrow> int list" where
  "py_range start stop step =
     (if 0 < step \<and> start < stop then start # py_range (start + step) stop step else [])"
  by pat_completeness auto
termination
  by (relation "measure (\<lambda>(start, stop, step). nat (stop - start))") auto

declare py_range.simps [simp del]

text \<open>\<^verbatim>\<open>xs[start:stop:step]\<close> for non-negative \<^verbatim>\<open>start\<close>, \<^verbatim>\<open>stop\<close> and positive
  \<^verbatim>\<open>step\<close>: the stop is clipped to the length.\<close>

definition slice_step :: "'a list \<Rightarrow> nat \<Rightarrow> nat \<Rightarrow> nat \<Rightarrow> 'a list" where
  "slice_step xs start stop step =
     map (\<lambda>i. xs ! nat i) (py_range (int start) (int (min stop (length xs))) (int step))"

text \<open>\<^verbatim>\<open>np.cumsum(xs).tolist()\<close>: running sums. The summands are list lengths, whose
  sums stay far below \<open>2^63\<close>, so NumPy's 64-bit addition is the addition of \<open>int\<close>.\<close>

fun cumsum_from :: "int \<Rightarrow> int list \<Rightarrow> int list" where
  "cumsum_from acc [] = []"
| "cumsum_from acc (x # xs) = (acc + x) # cumsum_from (acc + x) xs"

definition cumsum :: "int list \<Rightarrow> int list" where
  "cumsum xs = cumsum_from 0 xs"

text \<open>\<^verbatim>\<open>bisect.bisect(a, x)\<close>, that is \<^verbatim>\<open>bisect_right\<close>: the standard library's loop
  \<^verbatim>\<open>while lo < hi: mid = (lo + hi) // 2; if x < a[mid]: hi = mid else: lo = mid + 1\<close>.\<close>

function bisect_loop :: "int list \<Rightarrow> int \<Rightarrow> nat \<Rightarrow> nat \<Rightarrow> nat" where
  "bisect_loop a x lo hi =
     (if lo < hi then
        (let mid = (lo + hi) div 2
         in if x < a ! mid then bisect_loop a x lo mid else bisect_loop a x (mid + 1) hi)
      else lo)"
  by pat_completeness auto
termination
  by (relation "measure (\<lambda>(a, x, lo, hi). hi - lo)") auto

declare bisect_loop.simps [simp del]

definition bisect :: "int list \<Rightarrow> int \<Rightarrow> nat" where
  "bisect a x = bisect_loop a x 0 (length a)"

text \<open>\<^verbatim>\<open>f"{n}"\<close> for an integer: its decimal digits, with a sign when negative.\<close>

function str_nat :: "nat \<Rightarrow> string" where
  "str_nat n =
     (if n < 10 then [''0123456789'' ! n]
      else str_nat (n div 10) @ [''0123456789'' ! (n mod 10)])"
  by pat_completeness auto
termination
  by (relation "measure id") auto

declare str_nat.simps [simp del]

definition str_int :: "int \<Rightarrow> string" where
  "str_int i = (if i < 0 then ''-'' @ str_nat (nat (- i)) else str_nat (nat i))"

subsection \<open>The dataset object\<close>

text \<open>A store handle as returned by \<^verbatim>\<open>connect_db\<close>, with whether it is still open.\<close>

record env_handle =
  env_path :: path
  env_db :: store
  env_open :: bool

text \<open>
  The attributes of a \<^verbatim>\<open>TrajectoryLmdbDataset\<close> instance. \<open>env\<close> is the attribute
  \<^verbatim>\<open>self.env\<close> that \<^verbatim>\<open>close_db\<close> reads: \<open>None\<close> when the instance has no such
  attribute.
\<close>

record dataset =
  db_paths :: "path list"
  keys :: "int list list"
  envs :: "env_handle list"
  keylens :: "int list"
  keylen_cumulative :: "int list"
  num_samples :: int
  transform :: "(pyobj \<Rightarrow> exn + pyobj) option"
  env :: "env_handle option"

definition connect_db :: "externals \<Rightarrow> path \<Rightarrow> exn + env_handle" where
  "connect_db ext lmdb_path =
     (case lmdb_open ext lmdb_path of
        Inl e \<Rightarrow> Inl e
      | Inr st \<Rightarrow> Inr \<lparr>env_path = lmdb_path, env_db = st, env_open = True\<rparr>)"

text \<open>\<^verbatim>\<open>pickle.loads(env.begin().get("length".encode("ascii")))\<close>\<close>

definition read_length :: "externals \<Rightarrow> env_handle \<Rightarrow> exn + pyobj" where
  "read_length ext e = pickle_loads ext (env_db e ''length'')"

text \<open>The body of the first loop of \<^verbatim>\<open>__init__\<close>: open the shard, read its length,
  \<^verbatim>\<open>list(range(length))\<close>. A length that is not an integer makes \<^verbatim>\<open>range\<close> raise.\<close>

definition full_body :: "externals \<Rightarrow> path \<Rightarrow> exn + (int list \<times> env_handle)" where
  "full_body ext db_path =
     (case connect_db ext db_path of
        Inl e \<Rightarrow> Inl e
      | Inr h \<Rightarrow>
          (case read_length ext h of
             Inl e \<Rightarrow> Inl e
           | Inr (PyInt length') \<Rightarrow> Inr (py_range 0 length' 1, h)
           | Inr _ \<Rightarrow> Inl TypeError))"

text \<open>The body of the second loop: \<^verbatim>\<open>length -= length % world_size\<close>, then
  \<^verbatim>\<open>list(range(rank, length, world_size))\<close>.\<close>

definition shared_keys :: "nat \<Rightarrow> nat \<Rightarrow> int \<Rightarrow> int list" where
  "shared_keys world_size rank length' =
     py_range (int rank) (length' - length' mod int world_size) (int world_size)"

definition shared_body ::
  "externals \<Rightarrow> nat \<Rightarrow> nat \<Rightarrow> path \<Rightarrow> exn + (int list \<times> env_handle)" where
  "shared_body ext world_size rank db_path =
     (case connect_db ext db_path of
        Inl e \<Rightarrow> Inl e
      | Inr h \<Rightarrow>
          (case read_length ext h of
             Inl e \<Rightarrow> Inl e
           | Inr (PyInt length') \<Rightarrow> Inr (shared_keys world_size rank length', h)
           | Inr _ \<Rightarrow> Inl TypeError))"

text \<open>A \<^verbatim>\<open>for db_path in ...\<close> loop appending to \<^verbatim>\<open>self._keys\<close> and
  \<^verbatim>\<open>self.envs\<close>; the first exception leaves the loop.\<close>

fun for_each ::
  "(path \<Rightarrow> exn + (int list \<times> env_handle)) \<Rightarrow> path list \<Rightarrow>
   int list list \<times> env_handle list \<Rightarrow> exn + (int list list \<times> env_handle list)" where
  "for_each body [] st = Inr st"
| "for_each body (p # ps) st =
     (case body p of
        Inl e \<Rightarrow> Inl e
      | Inr (k, h) \<Rightarrow> for_each body ps (fst st @ [k], snd st @ [h]))"

definition num_full_dbs :: "path list \<Rightarrow> nat \<Rightarrow> nat" where
  "num_full_dbs paths world_size = length paths - length paths mod world_size"

definition full_db_paths :: "path list \<Rightarrow> nat \<Rightarrow> nat \<Rightarrow> path list" where
  "full_db_paths paths world_size rank =
     slice_step paths rank (num_full_dbs paths world_size) world_size"

definition shared_db_paths :: "path list \<Rightarrow> nat \<Rightarrow> path list" where
  "shared_db_paths paths world_size = drop (num_full_dbs paths world_size) paths"

text \<open>
  \<^verbatim>\<open>__init__\<close>. \<open>paths\<close> is the value of \<^verbatim>\<open>db_paths\<close> after line 42, the sorted
  directory listing; \<open>world_size\<close> and \<open>rank\<close> are what \<^verbatim>\<open>distutils\<close> returns.
  A zero \<open>world_size\<close> makes the \<^verbatim>\<open>%\<close> of line 47 raise.
\<close>

definition init ::
  "externals \<Rightarrow> nat \<Rightarrow> nat \<Rightarrow> path list \<Rightarrow> (pyobj \<Rightarrow> exn + pyobj) option \<Rightarrow> exn + dataset" where
  "init ext world_size rank paths tr =
     (if \<not> 0 < length paths then Inl AssertionError
      else if world_size = 0 then Inl ZeroDivisionError
      else
        (case for_each (full_body ext) (full_db_paths paths world_size rank) ([], []) of
           Inl e \<Rightarrow> Inl e
         | Inr st \<Rightarrow>
            (case for_each (shared_body ext world_size rank)
                    (shared_db_paths paths world_size) st of
               Inl e \<Rightarrow> Inl e
             | Inr (ks, hs) \<Rightarrow>
                 Inr \<lparr>db_paths = full_db_paths paths world_size rank
                                  @ shared_db_paths paths world_size,
                      keys = ks, envs = hs,
                      keylens = map (\<lambda>k. int (length k)) ks,
                      keylen_cumulative = cumsum (map (\<lambda>k. int (length k)) ks),
                      num_samples = sum_list (map (\<lambda>k. int (length k)) ks),
                      transform = tr, env = None\<rparr>)))"

text \<open>\<^verbatim>\<open>__len__\<close>\<close>

definition len :: "dataset \<Rightarrow> int" where
  "len self = num_samples self"

text \<open>Lines 76 to 80 of \<^verbatim>\<open>__getitem__\<close>: the shard and the offset inside it.\<close>

definition locate :: "dataset \<Rightarrow> int \<Rightarrow> nat \<times> int" where
  "locate self idx =
     (let db_idx = bisect (keylen_cumulative self) idx
      in (db_idx,
          if db_idx \<noteq> 0 then idx - keylen_cumulative self ! (db_idx - 1) else idx))"

text \<open>\<^verbatim>\<open>self.envs[db_idx]\<close> and \<^verbatim>\<open>self._keys[db_idx][el_idx]\<close>, in the order line 84
  and 85 evaluate them; \<open>el_idx\<close> is non-negative here.\<close>

definition lookup_key :: "dataset \<Rightarrow> nat \<Rightarrow> nat \<Rightarrow> exn + (env_handle \<times> int)" where
  "lookup_key self db_idx el_idx =
     (if length (envs self) \<le> db_idx then Inl IndexError
      else if length (keys self) \<le> db_idx then Inl IndexError
      else if length (keys self ! db_idx) \<le> el_idx then Inl IndexError
      else Inr (envs self ! db_idx, keys self ! db_idx ! el_idx))"

definition apply_transform :: "(pyobj \<Rightarrow> exn + pyobj) option \<Rightarrow> pyobj \<Rightarrow> exn + pyobj" where
  "apply_transform tr obj = (case tr of None \<Rightarrow> Inr obj | Some f \<Rightarrow> f obj)"

text \<open>\<^verbatim>\<open>data_object.id = s\<close>: the attribute is set on a record and on any other object
  that takes instance attributes; an integer or another built-in value takes none, which
  is an \<^verbatim>\<open>AttributeError\<close>.\<close>

fun set_id :: "pyobj \<Rightarrow> string \<Rightarrow> exn + pyobj" where
  "set_id (PyData d) s = Inr (PyData (d\<lparr>id_attr := Some s\<rparr>))"
| "set_id (PyObject i x) s = Inr (PyObject (Some s) x)"
| "set_id (PyInt i) s = Inl AttributeError"
| "set_id (PyBuiltin x) s = Inl AttributeError"

definition id_string :: "nat \<Rightarrow> int \<Rightarrow> string" where
  "id_string db_idx el_idx = str_int (int db_idx) @ ''_'' @ str_int el_idx"

text \<open>Lines 84 to 93: fetch, deserialise, transform, stamp the id.\<close>

definition fetch :: "externals \<Rightarrow> dataset \<Rightarrow> nat \<Rightarrow> int \<Rightarrow> exn + pyobj" where
  "fetch ext self db_idx el_idx =
     (case lookup_key self db_idx (nat el_idx) of
        Inl e \<Rightarrow> Inl e
      | Inr (h, k) \<Rightarrow>
          (case pickle_loads ext (env_db h (str_int k)) of
             Inl e \<Rightarrow> Inl e
           | Inr data_object \<Rightarrow>
               (case apply_transform (transform self) data_object of
                  Inl e \<Rightarrow> Inl e
                | Inr data_object' \<Rightarrow> set_id data_object' (id_string db_idx el_idx))))"

text \<open>\<^verbatim>\<open>__getitem__\<close>, with \<^verbatim>\<open>assert el_idx >= 0\<close> between the two parts.\<close>

definition getitem :: "externals \<Rightarrow> dataset \<Rightarrow> int \<Rightarrow> exn + pyobj" where
  "getitem ext self idx =
     (case locate self idx of
        (db_idx, el_idx) \<Rightarrow>
          if \<not> 0 \<le> el_idx then Inl AssertionError else fetch ext self db_idx el_idx)"

text \<open>\<^verbatim>\<open>close_db\<close>: \<^verbatim>\<open>self.env.close()\<close>. Reading an attribute the instance does not
  have raises \<^verbatim>\<open>AttributeError\<close>.\<close>

definition close_db :: "dataset \<Rightarrow> exn + dataset" where
  "close_db self =
     (case env self of
        None \<Rightarrow> Inl AttributeError
      | Some h \<Rightarrow> Inr (self\<lparr>env := Some (h\<lparr>env_open := False\<rparr>)\<rparr>))"

subsection \<open>The collater\<close>





subsection \<open>Auxiliary notions for the proofs\<close>

text \<open>A list is non-decreasing, stated on positions.\<close>

definition mono_list :: "int list \<Rightarrow> bool" where
  "mono_list a = (\<forall>i j. i \<le> j \<and> j < length a \<longrightarrow> a ! i \<le> a ! j)"

text \<open>What \<^verbatim>\<open>__init__\<close> establishes and \<^verbatim>\<open>__getitem__\<close> relies on.\<close>

definition dataset_inv :: "dataset \<Rightarrow> bool" where
  "dataset_inv self =
     (length (envs self) = length (keys self) \<and>
      keylens self = map (\<lambda>k. int (length k)) (keys self) \<and>
      keylen_cumulative self = cumsum (keylens self) \<and>
      num_samples self = sum_list (keylens self) \<and>
      env self = None \<and> list_all env_open (envs self))"

text \<open>The key list of the shard at position \<open>i\<close> of \<^verbatim>\<open>self.db_paths\<close>, whose declared
  length is \<open>l\<close>: exclusive shards come first.\<close>

definition shard_keys :: "nat \<Rightarrow> nat \<Rightarrow> path list \<Rightarrow> nat \<Rightarrow> int \<Rightarrow> int list" where
  "shard_keys world_size rank paths i l =
     (if i < length (full_db_paths paths world_size rank) then py_range 0 l 1
      else shared_keys world_size rank l)"

text \<open>Every owned key of every shard is in its store, deserialises, and the transform
  (when there is one) returns a record for it.\<close>

definition records_present :: "externals \<Rightarrow> dataset \<Rightarrow> bool" where
  "records_present ext self =
     (\<forall>s<length (keys self). \<forall>k\<in>set (keys self ! s).
        \<exists>obj d. pickle_loads ext (env_db (envs self ! s) (str_int k)) = Inr obj \<and>
                apply_transform (transform self) obj = Inr (PyData d))"

text \<open>A small concrete instance: shards \<open>a\<close>, \<open>b\<close> and \<open>s\<close> with declared lengths 5, 3
  and 2, a file without the length key and one whose length does not deserialise. Every
  other key of a shard holds a record. The theorems below are instantiated on it, which
  shows their hypotheses to be satisfiable.\<close>

definition demo_store :: "bytes \<Rightarrow> store" where
  "demo_store len_bytes =
     (\<lambda>k. if k = ''length'' then Some len_bytes else Some (''record '' @ k))"

definition demo_record :: "bytes \<Rightarrow> data_object" where
  "demo_record b =
     \<lparr>id_attr = Some ''stale'', edge_index = Inr (Some [[0, 1, 2], [1, 2, 0]]), payload = b\<rparr>"

definition demo_ext :: externals where
  "demo_ext =
     \<lparr>lmdb_open = (\<lambda>p. if p = ''a.lmdb'' then Inr (demo_store ''5'')
                    else if p = ''b.lmdb'' then Inr (demo_store ''3'')
                    else if p = ''s.lmdb'' then Inr (demo_store ''2'')
                    else if p = ''nolength.lmdb'' then Inr Map.empty
                    else if p = ''corrupt.lmdb'' then Inr (demo_store ''garbage'')
                    else Inl LmdbError),
      loads = (\<lambda>b. if b = ''5'' then Inr (PyInt 5)
               else if b = ''3'' then Inr (PyInt 3)
               else if b = ''2'' then Inr (PyInt 2)
               else if b = ''garbage'' then Inl UnpicklingError
               else Inr (PyData (demo_record b))),
      from_data_list = (\<lambda>xs. Inr \<lparr>batch_items = xs, neighbors = None\<rparr>)\<rparr>"

definition demo_ds :: dataset where
  "demo_ds =
     \<lparr>db_paths = [''a.lmdb'', ''b.lmdb''],
      keys = [[0, 1, 2, 3, 4], [0, 1, 2]],
      envs = [\<lparr>env_path = ''a.lmdb'', env_db = demo_store ''5'', env_open = True\<rparr>,
              \<lparr>env_path = ''b.lmdb'', env_db = demo_store ''3'', env_open = True\<rparr>],
      keylens = [5, 3], keylen_cumulative = [5, 8], num_samples = 8,
      transform = None, env = None\<rparr>"

definition demo_ds3 :: dataset where
  "demo_ds3 =
     \<lparr>db_paths = [''s.lmdb'', ''b.lmdb''],
      keys = [[], [0]],
      envs = [\<lparr>env_path = ''s.lmdb'', env_db = demo_store ''2'', env_open = True\<rparr>,
              \<lparr>env_path = ''b.lmdb'', env_db = demo_store ''3'', env_open = True\<rparr>],
      keylens = [0, 1], keylen_cumulative = [0, 1], num_samples = 1,
      transform = None, env = None\<rparr>"

text \<open>A transform that marks the record and sets an \<^verbatim>\<open>id\<close> of its own, and the dataset
  of rank 1 of 2 over the single shard \<open>a\<close>, which is shared: its owned keys are 1 and 3.\<close>

definition demo_transform :: "pyobj \<Rightarrow> exn + pyobj" where
  "demo_transform obj =
     (case obj of
        PyData d \<Rightarrow>
          Inr (PyData (d\<lparr>id_attr := Some ''set by transform'',
                           payload := ''transformed '' @ payload d\<rparr>))
      | _ \<Rightarrow> Inl TypeError)"

definition demo_ds_shared :: dataset where
  "demo_ds_shared =
     \<lparr>db_paths = [''a.lmdb''],
      keys = [[1, 3]],
      envs = [\<lparr>env_path = ''a.lmdb'', env_db = demo_store ''5'', env_open = True\<rparr>],
      keylens = [2], keylen_cumulative = [2], num_samples = 2,
      transform = Some demo_transform, env = None\<rparr>"




subsection \<open>Facts about the library functions\<close>

lemma py_range_stop: "\<not> (0 < s \<and> a < b) \<Longrightarrow> py_range a b s = []"
  by (subst py_range.simps) simp

lemma py_range_step: "0 < s \<Longrightarrow> a < b \<Longrightarrow> py_range a b s = a # py_range (a + s) b s"
  by (subst py_range.simps) simp

lemma py_range_set:
  "0 < s \<Longrightarrow> set (py_range a b s) = {i. a \<le> i \<and> i < b \<and> (i - a) mod s = 0}"
proof (induction a b s rule: py_range.induct)
  case (1 a b s)
  show ?case
  proof (cases "a < b")
    case False
    then show ?thesis by (auto simp: py_range_stop)
  next
    case True
    have ih: "set (py_range (a + s) b s) = {i. a + s \<le> i \<and> i < b \<and> (i - (a + s)) mod s = 0}"
      using 1 True by simp
    have m: "\<And>i. (i - (a + s)) mod s = (i - a) mod s"
      by (metis diff_diff_eq minus_mod_self2)
    have "{i. a \<le> i \<and> i < b \<and> (i - a) mod s = 0} =
          insert a {i. a + s \<le> i \<and> i < b \<and> (i - a) mod s = 0}"
    proof (rule set_eqI)
      fix i
      show "i \<in> {i. a \<le> i \<and> i < b \<and> (i - a) mod s = 0} \<longleftrightarrow>
            i \<in> insert a {i. a + s \<le> i \<and> i < b \<and> (i - a) mod s = 0}"
      proof (cases "i = a")
        case True with \<open>a < b\<close> show ?thesis by simp
      next
        case False
        have "a \<le> i \<Longrightarrow> (i - a) mod s = 0 \<Longrightarrow> a + s \<le> i"
        proof -
          assume h: "a \<le> i" "(i - a) mod s = 0"
          then have "s dvd (i - a)" by (simp add: dvd_eq_mod_eq_0)
          moreover have "0 < i - a" using h False by simp
          ultimately have "s \<le> i - a" using zdvd_imp_le by blast
          then show ?thesis by simp
        qed
        with False 1(2) show ?thesis by auto
      qed
    qed
    then show ?thesis
      using ih True 1(2) by (simp add: py_range_step m)
  qed
qed

lemma cumsum_from_length [simp]: "length (cumsum_from a xs) = length xs"
  by (induction xs arbitrary: a) auto

lemma cumsum_from_nth:
  "i < length xs \<Longrightarrow> cumsum_from a xs ! i = a + sum_list (take (Suc i) xs)"
proof (induction xs arbitrary: a i)
  case Nil
  then show ?case by simp
next
  case (Cons x xs)
  then show ?case by (cases i) auto
qed

lemma bisect_loop_spec:
  assumes "mono_list a" "lo \<le> hi" "hi \<le> length a"
    and "\<forall>j<lo. a ! j \<le> x"
    and "\<forall>j. hi \<le> j \<and> j < length a \<longrightarrow> x < a ! j"
  shows "bisect_loop a x lo hi \<le> length a \<and>
   (\<forall>j < bisect_loop a x lo hi. a ! j \<le> x) \<and>
   (\<forall>j. bisect_loop a x lo hi \<le> j \<and> j < length a \<longrightarrow> x < a ! j)"
  using assms
proof (induction a x lo hi rule: bisect_loop.induct)
  case (1 a x lo hi)
  show ?case
  proof (cases "lo < hi")
    case False
    then have eq: "bisect_loop a x lo hi = lo"
      by (subst bisect_loop.simps) simp
    from False "1.prems"(2) have "lo = hi" by simp
    with "1.prems" show ?thesis unfolding eq by simp
  next
    case True
    define mid where "mid = (lo + hi) div 2"
    have m: "lo \<le> mid" "mid < hi" using True by (auto simp: mid_def)
    show ?thesis
    proof (cases "x < a ! mid")
      case xl: True
      have eq: "bisect_loop a x lo hi = bisect_loop a x lo mid"
        using True xl by (subst bisect_loop.simps) (simp add: mid_def)
      have up: "\<forall>j. mid \<le> j \<and> j < length a \<longrightarrow> x < a ! j"
      proof (intro allI impI)
        fix j assume j: "mid \<le> j \<and> j < length a"
        then have "a ! mid \<le> a ! j" using "1.prems"(1) by (simp add: mono_list_def)
        with xl show "x < a ! j" by simp
      qed
      have "mid \<le> length a" using m "1.prems"(3) by simp
      from "1.IH"(1)[OF True mid_def xl "1.prems"(1) m(1) this "1.prems"(4) up]
      show ?thesis unfolding eq .
    next
      case xg: False
      have eq: "bisect_loop a x lo hi = bisect_loop a x (mid + 1) hi"
        using True xg by (subst bisect_loop.simps) (simp add: mid_def)
      have low: "\<forall>j<mid + 1. a ! j \<le> x"
      proof (intro allI impI)
        fix j assume "j < mid + 1"
        then have "a ! j \<le> a ! mid" using "1.prems"(1,3) m by (simp add: mono_list_def)
        with xg show "a ! j \<le> x" by simp
      qed
      have "mid + 1 \<le> hi" using m by simp
      from "1.IH"(2)[OF True mid_def xg "1.prems"(1) this "1.prems"(3) low "1.prems"(5)]
      show ?thesis unfolding eq .
    qed
  qed
qed

lemma bisect_spec:
  assumes "mono_list a"
  shows "bisect a x \<le> length a \<and> (\<forall>j < bisect a x. a ! j \<le> x) \<and>
         (\<forall>j. bisect a x \<le> j \<and> j < length a \<longrightarrow> x < a ! j)"
  unfolding bisect_def
  by (rule bisect_loop_spec[OF assms]) simp_all

lemma bisect_unique:
  assumes "mono_list a" "s < length a" "x < a ! s" "s = 0 \<or> a ! (s - 1) \<le> x"
  shows "bisect a x = s"
proof -
  let ?r = "bisect a x"
  note sp = bisect_spec[OF assms(1), of x]
  have "\<not> s < ?r" using sp assms(3) by force
  moreover have "\<not> ?r < s"
  proof
    assume lt: "?r < s"
    then have "?r \<le> s - 1 \<and> s - 1 < length a" using assms(2) by arith
    then have "x < a ! (s - 1)" using sp by blast
    with assms(4) lt show False by simp
  qed
  ultimately show ?thesis by simp
qed

lemma mono_cumsum_from:
  assumes "\<forall>x\<in>set xs. 0 \<le> x"
  shows "mono_list (cumsum_from acc xs)"
proof -
  have "\<And>i j. i \<le> j \<Longrightarrow> j < length xs \<Longrightarrow> sum_list (take (Suc i) xs) \<le> sum_list (take (Suc j) xs)"
  proof -
    fix i j assume ij: "i \<le> j" "j < length xs"
    have "take (Suc j) xs = take (Suc i) xs @ take (j - i) (drop (Suc i) xs)"
      using ij by (metis Suc_le_mono le_add_diff_inverse take_add diff_Suc_Suc)
    moreover have "0 \<le> sum_list (take (j - i) (drop (Suc i) xs))"
      using assms by (meson in_set_dropD in_set_takeD sum_list_nonneg)
    ultimately show "sum_list (take (Suc i) xs) \<le> sum_list (take (Suc j) xs)" by simp
  qed
  then show ?thesis
    by (simp add: mono_list_def cumsum_from_nth)
qed

lemma cumsum_length [simp]: "length (cumsum xs) = length xs"
  by (simp add: cumsum_def)

lemma cumsum_nth: "s < length xs \<Longrightarrow> cumsum xs ! s = sum_list (take s xs) + xs ! s"
  by (simp add: cumsum_def cumsum_from_nth take_Suc_conv_app_nth)

lemma cumsum_prev:
  "s < length xs \<Longrightarrow> (if s \<noteq> 0 then cumsum xs ! (s - 1) else 0) = sum_list (take s xs)"
proof (cases s)
  case 0 then show ?thesis by simp
next
  case (Suc k)
  assume "s < length xs"
  with Suc have "k < length xs" by simp
  then have "cumsum xs ! k = sum_list (take (Suc k) xs)"
    by (simp add: cumsum_def cumsum_from_nth)
  with Suc show ?thesis by simp
qed

lemma mono_cumsum: "\<forall>x\<in>set xs. 0 \<le> x \<Longrightarrow> mono_list (cumsum xs)"
  by (simp add: cumsum_def mono_cumsum_from)

lemma bisect_cumsum_in_range:
  assumes nn: "\<forall>x\<in>set xs. 0 \<le> x" and lo: "0 \<le> idx" and hi: "idx < sum_list xs"
  shows "bisect (cumsum xs) idx < length xs \<and>
         sum_list (take (bisect (cumsum xs) idx) xs) \<le> idx \<and>
         idx < sum_list (take (bisect (cumsum xs) idx) xs) + xs ! bisect (cumsum xs) idx"
proof -
  let ?r = "bisect (cumsum xs) idx"
  note sp = bisect_spec[OF mono_cumsum[OF nn], of idx]
  have r_lt: "?r < length xs"
  proof (rule ccontr)
    assume "\<not> ?r < length xs"
    with sp have r: "?r = length xs" by simp
    from hi lo have "xs \<noteq> []" by auto
    then have l: "length xs - 1 < length xs" by simp
    then have "cumsum xs ! (length xs - 1) \<le> idx" using sp r by simp
    moreover have "cumsum xs ! (length xs - 1) = sum_list xs"
      using l \<open>xs \<noteq> []\<close> by (simp add: cumsum_def cumsum_from_nth)
    ultimately show False using hi by simp
  qed
  have up: "idx < cumsum xs ! ?r" using sp r_lt by simp
  have low: "sum_list (take ?r xs) \<le> idx"
  proof (cases "?r = 0")
    case True then show ?thesis using lo by simp
  next
    case False
    then have "?r - 1 < ?r" by simp
    then have "cumsum xs ! (?r - 1) \<le> idx" using sp by blast
    then show ?thesis using cumsum_prev[OF r_lt] False by simp
  qed
  show ?thesis using r_lt up low by (simp add: cumsum_nth)
qed

lemma bisect_cumsum_unique:
  assumes nn: "\<forall>x\<in>set xs. 0 \<le> x" and s: "s < length xs"
    and lo: "sum_list (take s xs) \<le> idx" and hi: "idx < sum_list (take s xs) + xs ! s"
  shows "bisect (cumsum xs) idx = s"
proof (rule bisect_unique[OF mono_cumsum[OF nn]])
  show "s < length (cumsum xs)" using s by simp
  show "idx < cumsum xs ! s" using hi s by (simp add: cumsum_nth)
  show "s = 0 \<or> cumsum xs ! (s - 1) \<le> idx"
    using cumsum_prev[OF s] lo by (cases "s = 0") simp_all
qed

lemma bisect_cumsum_past_end:
  assumes nn: "\<forall>x\<in>set xs. 0 \<le> x" and hi: "sum_list xs \<le> idx"
  shows "bisect (cumsum xs) idx = length xs"
proof -
  let ?r = "bisect (cumsum xs) idx"
  note sp = bisect_spec[OF mono_cumsum[OF nn], of idx]
  have "\<not> ?r < length xs"
  proof
    assume r: "?r < length xs"
    then have "idx < cumsum xs ! ?r" using sp by simp
    moreover have "?r \<le> length xs - 1 \<and> length xs - 1 < length (cumsum xs)"
      using r by (simp, arith)
    then have "cumsum xs ! ?r \<le> cumsum xs ! (length xs - 1)"
      using mono_cumsum[OF nn] unfolding mono_list_def by blast
    moreover have "cumsum xs ! (length xs - 1) = sum_list xs"
      using r by (simp add: cumsum_def cumsum_from_nth)
    ultimately show False using hi by simp
  qed
  with sp show ?thesis by simp
qed

lemma bisect_cumsum_negative:
  assumes nn: "\<forall>x\<in>set xs. 0 \<le> x" and neg: "idx < 0"
  shows "bisect (cumsum xs) idx = 0"
proof (rule ccontr)
  assume "bisect (cumsum xs) idx \<noteq> 0"
  then have "0 < bisect (cumsum xs) idx" by simp
  then have "cumsum xs ! 0 \<le> idx" using bisect_spec[OF mono_cumsum[OF nn], of idx] by blast
  moreover have "0 < length xs"
    using \<open>0 < bisect (cumsum xs) idx\<close> bisect_spec[OF mono_cumsum[OF nn], of idx]
    by (cases xs) simp_all
  then have "0 \<le> cumsum xs ! 0" using nn by (simp add: cumsum_nth)
  ultimately show False using neg by simp
qed

lemma for_each_Inr:
  "for_each body ps st = Inr st' \<Longrightarrow>
     fst st' = fst st @ map (\<lambda>p. fst (projr (body p))) ps \<and>
     snd st' = snd st @ map (\<lambda>p. snd (projr (body p))) ps \<and>
     (\<forall>p\<in>set ps. \<not> isl (body p))"
proof (induction ps arbitrary: st)
  case Nil
  then show ?case by simp
next
  case (Cons p ps)
  from Cons.prems obtain k h where b: "body p = Inr (k, h)"
    by (auto split: sum.splits)
  with Cons.prems have "for_each body ps (fst st @ [k], snd st @ [h]) = Inr st'" by simp
  from Cons.IH[OF this] b show ?case by simp
qed

lemma py_range_closed:
  "0 < s \<Longrightarrow> py_range a b s = map (\<lambda>k. a + int k * s) [0..<nat ((b - a + s - 1) div s)]"
proof (induction a b s rule: py_range.induct)
  case (1 a b s)
  show ?case
  proof (cases "a < b")
    case False
    then have "b - a + s - 1 \<le> s - 1" by simp
    then have "(b - a + s - 1) div s \<le> (s - 1) div s"
      using 1(2) by (rule zdiv_mono1)
    moreover have "(s - 1) div s = 0"
      using 1(2) by (simp add: div_pos_pos_trivial)
    ultimately have "(b - a + s - 1) div s \<le> 0" by simp
    with False show ?thesis by (simp add: py_range_stop)
  next
    case True
    let ?n = "nat ((b - (a + s) + s - 1) div s)"
    have "b - a + s - 1 = (b - (a + s) + s - 1) + s" by simp
    then have d: "(b - a + s - 1) div s = (b - (a + s) + s - 1) div s + 1"
      using 1(2) by (metis div_add_self2 less_irrefl)
    have nn: "0 \<le> (b - (a + s) + s - 1) div s"
      using True 1(2) by (simp add: pos_imp_zdiv_nonneg_iff)
    have n: "nat ((b - a + s - 1) div s) = Suc ?n"
      using d nn by simp
    have ih: "py_range (a + s) b s = map (\<lambda>k. a + s + int k * s) [0..<?n]"
      using 1 True by simp
    have "map (\<lambda>k. a + int k * s) [0..<Suc ?n] = a # map (\<lambda>k. a + int (Suc k) * s) [0..<?n]"
      by (simp add: upt_conv_Cons map_Suc_upt[symmetric] del: upt_Suc)
    also have "map (\<lambda>k. a + int (Suc k) * s) [0..<?n] = map (\<lambda>k. a + s + int k * s) [0..<?n]"
      by (simp add: algebra_simps)
    finally show ?thesis
      unfolding n using True 1(2) ih by (simp add: py_range_step)
  qed
qed

lemma py_range_upto: "py_range 0 l 1 = [0..l - 1]"
proof -
  have "\<And>a. py_range a l 1 = [a..l - 1]"
  proof -
    fix a show "py_range a l 1 = [a..l - 1]"
    proof (induction a l "1::int" rule: py_range.induct)
      case (1 a b)
      show ?case
      proof (cases "a < b")
        case True
        with 1 show ?thesis by (simp add: py_range_step upto_rec1[of a "b - 1"])
      next
        case False
        then show ?thesis by (simp add: py_range_stop)
      qed
    qed
  qed
  then show ?thesis .
qed

lemma sum_list_take_le:
  "\<forall>x\<in>set xs. (0::int) \<le> x \<Longrightarrow> sum_list (take n xs) \<le> sum_list xs"
proof -
  assume nn: "\<forall>x\<in>set xs. (0::int) \<le> x"
  have "sum_list xs = sum_list (take n xs) + sum_list (drop n xs)"
    by (metis append_take_drop_id sum_list_append)
  moreover have "0 \<le> sum_list (drop n xs)"
    using nn by (meson in_set_dropD sum_list_nonneg)
  ultimately show ?thesis by simp
qed

subsection \<open>Facts about the dataset\<close>

lemma full_body_Inr:
  "full_body ext p = Inr (k, h) \<Longrightarrow>
   \<exists>st b l. lmdb_open ext p = Inr st \<and> st ''length'' = Some b \<and> loads ext b = Inr (PyInt l) \<and>
     h = \<lparr>env_path = p, env_db = st, env_open = True\<rparr> \<and> k = py_range 0 l 1"
  by (auto simp: full_body_def connect_db_def read_length_def pickle_loads_def
      split: sum.splits option.splits pyobj.splits)

lemma shared_body_Inr:
  "shared_body ext w r p = Inr (k, h) \<Longrightarrow>
   \<exists>st b l. lmdb_open ext p = Inr st \<and> st ''length'' = Some b \<and> loads ext b = Inr (PyInt l) \<and>
     h = \<lparr>env_path = p, env_db = st, env_open = True\<rparr> \<and> k = shared_keys w r l"
  by (auto simp: shared_body_def connect_db_def read_length_def pickle_loads_def
      split: sum.splits option.splits pyobj.splits)

lemma init_Inr:
  assumes "init ext w r paths tr = Inr ds"
  shows "0 < w \<and> paths \<noteq> [] \<and>
    db_paths ds = full_db_paths paths w r @ shared_db_paths paths w \<and>
    keys ds = map (\<lambda>p. fst (projr (full_body ext p))) (full_db_paths paths w r)
            @ map (\<lambda>p. fst (projr (shared_body ext w r p))) (shared_db_paths paths w) \<and>
    envs ds = map (\<lambda>p. snd (projr (full_body ext p))) (full_db_paths paths w r)
            @ map (\<lambda>p. snd (projr (shared_body ext w r p))) (shared_db_paths paths w) \<and>
    (\<forall>p\<in>set (full_db_paths paths w r). \<not> isl (full_body ext p)) \<and>
    (\<forall>p\<in>set (shared_db_paths paths w). \<not> isl (shared_body ext w r p)) \<and>
    keylens ds = map (\<lambda>k. int (length k)) (keys ds) \<and>
    keylen_cumulative ds = cumsum (keylens ds) \<and>
    num_samples ds = sum_list (keylens ds) \<and>
    transform ds = tr \<and> env ds = None"
proof -
  from assms have w: "0 < w" and ne: "paths \<noteq> []"
    by (auto simp: init_def split: if_splits)
  from assms w ne obtain st where
    f1: "for_each (full_body ext) (full_db_paths paths w r) ([], []) = Inr st"
    by (auto simp: init_def split: sum.splits)
  from assms w ne f1 obtain ks hs where
    f2: "for_each (shared_body ext w r) (shared_db_paths paths w) st = Inr (ks, hs)"
    by (auto simp: init_def split: sum.splits prod.splits)
  from assms w ne f1 f2 have ds: "ds =
    \<lparr>db_paths = full_db_paths paths w r @ shared_db_paths paths w,
     keys = ks, envs = hs,
     keylens = map (\<lambda>k. int (length k)) ks,
     keylen_cumulative = cumsum (map (\<lambda>k. int (length k)) ks),
     num_samples = sum_list (map (\<lambda>k. int (length k)) ks),
     transform = tr, env = None\<rparr>"
    by (simp add: init_def)
  note a = for_each_Inr[OF f1] and b = for_each_Inr[OF f2]
  show ?thesis using w ne a b by (simp add: ds)
qed

lemma init_shard:
  assumes "init ext w r paths tr = Inr ds" and "i < length (db_paths ds)"
  shows "\<exists>st b l. lmdb_open ext (db_paths ds ! i) = Inr st \<and> st ''length'' = Some b \<and>
           loads ext b = Inr (PyInt l) \<and>
           envs ds ! i = \<lparr>env_path = db_paths ds ! i, env_db = st, env_open = True\<rparr> \<and>
           keys ds ! i = shard_keys w r paths i l"
proof -
  note I = init_Inr[OF assms(1)]
  let ?F = "full_db_paths paths w r" and ?S = "shared_db_paths paths w"
  show ?thesis
  proof (cases "i < length ?F")
    case True
    then have p: "?F ! i \<in> set ?F" by simp
    with I have "\<not> isl (full_body ext (?F ! i))" by blast
    then obtain k h where kh: "full_body ext (?F ! i) = Inr (k, h)"
      by (cases "full_body ext (?F ! i)") auto
    from full_body_Inr[OF kh] True I kh show ?thesis
      by (auto simp: nth_append shard_keys_def)
  next
    case False
    with assms(2) I have j: "i - length ?F < length ?S" by simp
    then have p: "?S ! (i - length ?F) \<in> set ?S" by simp
    with I have "\<not> isl (shared_body ext w r (?S ! (i - length ?F)))" by blast
    then obtain k h where kh: "shared_body ext w r (?S ! (i - length ?F)) = Inr (k, h)"
      by (cases "shared_body ext w r (?S ! (i - length ?F))") auto
    from shared_body_Inr[OF kh] False j I kh show ?thesis
      by (auto simp: nth_append shard_keys_def)
  qed
qed

lemma init_inv:
  assumes "init ext w r paths tr = Inr ds"
  shows "dataset_inv ds"
proof -
  note I = init_Inr[OF assms]
  have "\<forall>i<length (envs ds). env_open (envs ds ! i)"
  proof (intro allI impI)
    fix i assume "i < length (envs ds)"
    with I have "i < length (db_paths ds)" by simp
    from init_shard[OF assms this] show "env_open (envs ds ! i)" by auto
  qed
  then have "list_all env_open (envs ds)" by (simp add: list_all_length)
  with I show ?thesis by (simp add: dataset_inv_def)
qed

lemma keylens_nonneg: "dataset_inv ds \<Longrightarrow> \<forall>x\<in>set (keylens ds). 0 \<le> x"
  by (auto simp: dataset_inv_def)

lemma locate_fst: "fst (locate ds idx) = bisect (keylen_cumulative ds) idx"
  by (simp add: locate_def Let_def)

lemma locate_snd:
  "snd (locate ds idx) =
     idx - (if fst (locate ds idx) \<noteq> 0
            then keylen_cumulative ds ! (fst (locate ds idx) - 1) else 0)"
  by (simp add: locate_def Let_def)

lemma locate_in_range:
  assumes inv: "dataset_inv ds" and lo: "0 \<le> idx" and hi: "idx < num_samples ds"
  shows "fst (locate ds idx) < length (keys ds) \<and>
         snd (locate ds idx) = idx - sum_list (take (fst (locate ds idx)) (keylens ds)) \<and>
         0 \<le> snd (locate ds idx) \<and>
         snd (locate ds idx) < int (length (keys ds ! fst (locate ds idx)))"
proof -
  let ?s = "fst (locate ds idx)"
  have cum: "keylen_cumulative ds = cumsum (keylens ds)"
    and n: "num_samples ds = sum_list (keylens ds)"
    and kl: "keylens ds = map (\<lambda>k. int (length k)) (keys ds)"
    using inv by (simp_all add: dataset_inv_def)
  from hi n have hi': "idx < sum_list (keylens ds)" by simp
  note B = bisect_cumsum_in_range[OF keylens_nonneg[OF inv] lo hi']
  have s: "?s < length (keylens ds)" using B by (simp add: locate_fst cum)
  have off: "snd (locate ds idx) = idx - sum_list (take ?s (keylens ds))"
    unfolding locate_snd[of ds idx] cum cumsum_prev[OF s] ..
  have "keylens ds ! ?s = int (length (keys ds ! ?s))" using s kl by simp
  moreover have "sum_list (take ?s (keylens ds)) \<le> idx"
    and "idx < sum_list (take ?s (keylens ds)) + keylens ds ! ?s"
    using B by (simp_all add: locate_fst cum)
  ultimately show ?thesis using s off kl by simp
qed

lemma locate_first_exceeding:
  assumes inv: "dataset_inv ds" and lo: "0 \<le> idx" and hi: "idx < num_samples ds"
  shows "fst (locate ds idx) < length (keylen_cumulative ds) \<and>
         idx < keylen_cumulative ds ! fst (locate ds idx) \<and>
         (\<forall>j<fst (locate ds idx). keylen_cumulative ds ! j \<le> idx)"
proof -
  have cum: "keylen_cumulative ds = cumsum (keylens ds)"
    and kl: "keylens ds = map (\<lambda>k. int (length k)) (keys ds)"
    using inv by (simp_all add: dataset_inv_def)
  note sp = bisect_spec[OF mono_cumsum[OF keylens_nonneg[OF inv]], of idx]
  have "fst (locate ds idx) < length (keys ds)" using locate_in_range[OF assms] by simp
  then show ?thesis using sp by (simp add: locate_fst cum kl)
qed

lemma getitem_unfold:
  "getitem ext ds idx =
     (if \<not> 0 \<le> snd (locate ds idx) then Inl AssertionError
      else fetch ext ds (fst (locate ds idx)) (snd (locate ds idx)))"
  by (simp add: getitem_def split: prod.splits)

lemma lookup_key_in_range:
  assumes inv: "dataset_inv ds" and lo: "0 \<le> idx" and hi: "idx < num_samples ds"
  shows "lookup_key ds (fst (locate ds idx)) (nat (snd (locate ds idx))) =
           Inr (envs ds ! fst (locate ds idx),
                keys ds ! fst (locate ds idx) ! nat (snd (locate ds idx)))"
proof -
  note L = locate_in_range[OF assms]
  have "length (envs ds) = length (keys ds)" using inv by (simp add: dataset_inv_def)
  moreover have "nat (snd (locate ds idx)) < length (keys ds ! fst (locate ds idx))"
    using L by linarith
  ultimately show ?thesis using L unfolding lookup_key_def by simp
qed

lemma getitem_in_range:
  assumes inv: "dataset_inv ds" and lo: "0 \<le> idx" and hi: "idx < num_samples ds"
  shows "getitem ext ds idx = fetch ext ds (fst (locate ds idx)) (snd (locate ds idx))"
  using locate_in_range[OF assms] unfolding getitem_unfold by simp

lemma getitem_past_end:
  assumes inv: "dataset_inv ds" and hi: "num_samples ds \<le> idx"
  shows "getitem ext ds idx = Inl IndexError"
proof -
  have cum: "keylen_cumulative ds = cumsum (keylens ds)"
    and n: "num_samples ds = sum_list (keylens ds)"
    and kl: "keylens ds = map (\<lambda>k. int (length k)) (keys ds)"
    and le: "length (envs ds) = length (keys ds)"
    using inv by (simp_all add: dataset_inv_def)
  have nn: "\<forall>x\<in>set (keylens ds). 0 \<le> x" by (rule keylens_nonneg[OF inv])
  from hi n have "sum_list (keylens ds) \<le> idx" by simp
  from bisect_cumsum_past_end[OF nn this]
  have s: "fst (locate ds idx) = length (keys ds)" by (simp add: locate_fst cum kl)
  have "0 \<le> snd (locate ds idx)"
  proof (cases "length (keys ds) = 0")
    case True
    then have "num_samples ds = 0" using n kl by simp
    with hi s True show ?thesis by (simp add: locate_snd)
  next
    case False
    then have l: "length (keylens ds) - 1 < length (keylens ds)" using kl by simp
    have "cumsum (keylens ds) ! (length (keylens ds) - 1) = sum_list (keylens ds)"
      using l by (simp add: cumsum_def cumsum_from_nth)
    then show ?thesis using False s hi n kl by (simp add: locate_snd cum)
  qed
  then show ?thesis using s le
    unfolding getitem_unfold fetch_def lookup_key_def by simp
qed

lemma getitem_negative:
  assumes inv: "dataset_inv ds" and neg: "idx < 0"
  shows "getitem ext ds idx = Inl AssertionError"
proof -
  have cum: "keylen_cumulative ds = cumsum (keylens ds)"
    using inv by (simp add: dataset_inv_def)
  have "fst (locate ds idx) = 0"
    using bisect_cumsum_negative[OF keylens_nonneg[OF inv] neg] by (simp add: locate_fst cum)
  then have "snd (locate ds idx) = idx" by (simp add: locate_snd)
  with neg show ?thesis unfolding getitem_unfold by simp
qed

subsection \<open>Facts about the concrete instance and further facts about the dataset\<close>

lemmas init_defs =
  init_def num_full_dbs_def full_db_paths_def shared_db_paths_def slice_step_def
  full_body_def shared_body_def shared_keys_def connect_db_def read_length_def
  pickle_loads_def cumsum_def

lemma demo_store_simps:
  "demo_store b ''length'' = Some b"
  "demo_store b ''0'' = Some ''record 0''"
  "demo_store b ''1'' = Some ''record 1''"
  "demo_store b ''2'' = Some ''record 2''"
  "demo_store b ''3'' = Some ''record 3''"
  "demo_store b ''4'' = Some ''record 4''"
  by (simp_all add: demo_store_def)

lemma demo_ext_simps:
  "lmdb_open demo_ext ''a.lmdb'' = Inr (demo_store ''5'')"
  "lmdb_open demo_ext ''b.lmdb'' = Inr (demo_store ''3'')"
  "lmdb_open demo_ext ''s.lmdb'' = Inr (demo_store ''2'')"
  "lmdb_open demo_ext ''nolength.lmdb'' = Inr Map.empty"
  "lmdb_open demo_ext ''corrupt.lmdb'' = Inr (demo_store ''garbage'')"
  "loads demo_ext ''garbage'' = Inl UnpicklingError"
  "loads demo_ext ''5'' = Inr (PyInt 5)"
  "loads demo_ext ''3'' = Inr (PyInt 3)"
  "loads demo_ext ''2'' = Inr (PyInt 2)"
  "loads demo_ext ''record 0'' = Inr (PyData (demo_record ''record 0''))"
  "loads demo_ext ''record 1'' = Inr (PyData (demo_record ''record 1''))"
  "loads demo_ext ''record 2'' = Inr (PyData (demo_record ''record 2''))"
  "loads demo_ext ''record 3'' = Inr (PyData (demo_record ''record 3''))"
  "loads demo_ext ''record 4'' = Inr (PyData (demo_record ''record 4''))"
  "from_data_list demo_ext xs = Inr \<lparr>batch_items = xs, neighbors = None\<rparr>"
  by (simp_all add: demo_ext_def)

lemma str_int_digits:
  "str_int 0 = ''0''" "str_int 1 = ''1''" "str_int 2 = ''2''" "str_int 3 = ''3''"
  "str_int 4 = ''4''"
  by (simp_all add: str_int_def str_nat.simps)

lemma demo_init: "init demo_ext 1 0 [''a.lmdb'', ''b.lmdb''] None = Inr demo_ds"
  by (simp add: init_defs demo_ext_simps demo_store_simps demo_ds_def py_range.simps)

lemma demo_init3: "init demo_ext 3 0 [''s.lmdb'', ''b.lmdb''] None = Inr demo_ds3"
  by (simp add: init_defs demo_ext_simps demo_store_simps demo_ds3_def py_range.simps)

lemma demo_locate6: "locate demo_ds 6 = (1, 1)"
  by (simp add: locate_def demo_ds_def bisect_def bisect_loop.simps Let_def)

lemma demo3_locate0: "locate demo_ds3 0 = (1, 0)"
  by (simp add: locate_def demo_ds3_def bisect_def bisect_loop.simps Let_def)

lemma getitem_in_range_expanded:
  assumes inv: "dataset_inv ds" and lo: "0 \<le> idx" and hi: "idx < num_samples ds"
  shows "getitem ext ds idx =
    (case pickle_loads ext (env_db (envs ds ! fst (locate ds idx))
             (str_int (keys ds ! fst (locate ds idx) ! nat (snd (locate ds idx))))) of
       Inl e \<Rightarrow> Inl e
     | Inr obj \<Rightarrow>
        (case apply_transform (transform ds) obj of
           Inl e \<Rightarrow> Inl e
         | Inr obj' \<Rightarrow> set_id obj' (id_string (fst (locate ds idx)) (snd (locate ds idx)))))"
  unfolding getitem_in_range[OF assms] fetch_def lookup_key_in_range[OF assms] by simp

lemma shared_keys_short: "0 < w \<Longrightarrow> l < int w \<Longrightarrow> shared_keys w r l = []"
proof -
  assume w: "0 < w" and l: "l < int w"
  have "l - l mod int w \<le> 0"
  proof (cases "0 \<le> l")
    case True
    with l have "l mod int w = l" by simp
    then show ?thesis by simp
  next
    case False
    moreover have "0 \<le> l mod int w" using w by simp
    ultimately show ?thesis by simp
  qed
  then show ?thesis by (simp add: shared_keys_def py_range_stop)
qed

lemma getitem_succeeds:
  assumes inv: "dataset_inv ds" and lo: "0 \<le> idx" and hi: "idx < num_samples ds"
    and rp: "records_present ext ds"
  shows "\<exists>d. getitem ext ds idx = Inr (PyData d)"
proof -
  let ?s = "fst (locate ds idx)" and ?o = "nat (snd (locate ds idx))"
  note L = locate_in_range[OF inv lo hi]
  have s: "?s < length (keys ds)" using L by simp
  have "?o < length (keys ds ! ?s)" using L by linarith
  then have k: "keys ds ! ?s ! ?o \<in> set (keys ds ! ?s)" by simp
  from rp s k obtain obj d where
    o: "pickle_loads ext (env_db (envs ds ! ?s) (str_int (keys ds ! ?s ! ?o))) = Inr obj"
    and t: "apply_transform (transform ds) obj = Inr (PyData d)"
    unfolding records_present_def by blast
  show ?thesis
    by (simp add: getitem_in_range_expanded[OF inv lo hi] o t)
qed

lemma demo_records_present: "records_present demo_ext demo_ds"
proof -
  have k: "keys demo_ds = [[0, 1, 2, 3, 4], [0, 1, 2]]"
    and e: "envs demo_ds =
      [\<lparr>env_path = ''a.lmdb'', env_db = demo_store ''5'', env_open = True\<rparr>,
       \<lparr>env_path = ''b.lmdb'', env_db = demo_store ''3'', env_open = True\<rparr>]"
    and t: "transform demo_ds = None"
    by (simp_all add: demo_ds_def)
  show ?thesis
    unfolding records_present_def k e t
    by (auto simp: less_Suc_eq str_int_digits demo_store_simps demo_ext_simps
        pickle_loads_def apply_transform_def)
qed

lemma demo_init_shared:
  "init demo_ext 2 1 [''a.lmdb''] (Some demo_transform) = Inr demo_ds_shared"
  by (simp add: init_defs demo_ext_simps demo_store_simps demo_ds_shared_def py_range.simps)

lemma demo_shared_locate1: "locate demo_ds_shared 1 = (0, 1)"
  by (simp add: locate_def demo_ds_shared_def bisect_def bisect_loop.simps Let_def)

lemma set_id_stamps: "set_id obj s = Inr (PyData d) \<Longrightarrow> id_attr d = Some s"
  by (cases obj) auto

lemma id_string_1_1: "id_string 1 1 = ''1_1''"
  by (simp add: id_string_def str_int_digits)

lemma two_shards_5_3:
  assumes i: "init ext 1 0 [p0, p1] tr = Inr ds"
    and l0: "lmdb_open ext p0 = Inr st0" "st0 ''length'' = Some b0" "loads ext b0 = Inr (PyInt 5)"
    and l1: "lmdb_open ext p1 = Inr st1" "st1 ''length'' = Some b1" "loads ext b1 = Inr (PyInt 3)"
  shows "keys ds = [[0, 1, 2, 3, 4], [0, 1, 2]] \<and> keylen_cumulative ds = [5, 8] \<and>
         num_samples ds = 8 \<and> env_db (envs ds ! 1) = st1 \<and> transform ds = tr"
proof -
  have f: "full_db_paths [p0, p1] 1 0 = [p0, p1]"
    by (simp add: full_db_paths_def num_full_dbs_def slice_step_def py_range.simps)
  have s: "shared_db_paths [p0, p1] 1 = []"
    by (simp add: shared_db_paths_def num_full_dbs_def)
  have b0: "full_body ext p0 =
      Inr ([0, 1, 2, 3, 4], \<lparr>env_path = p0, env_db = st0, env_open = True\<rparr>)"
    by (simp add: full_body_def connect_db_def read_length_def pickle_loads_def l0
        py_range.simps)
  have b1: "full_body ext p1 =
      Inr ([0, 1, 2], \<lparr>env_path = p1, env_db = st1, env_open = True\<rparr>)"
    by (simp add: full_body_def connect_db_def read_length_def pickle_loads_def l1
        py_range.simps)
  from i[unfolded init_def f s] have "ds = \<lparr>db_paths = [p0, p1], keys = [[0, 1, 2, 3, 4], [0, 1, 2]],
      envs = [\<lparr>env_path = p0, env_db = st0, env_open = True\<rparr>,
              \<lparr>env_path = p1, env_db = st1, env_open = True\<rparr>],
      keylens = [5, 3], keylen_cumulative = [5, 8], num_samples = 8,
      transform = tr, env = None\<rparr>"
    by (simp add: b0 b1 cumsum_def)
  then show ?thesis by simp
qed

lemma close_db_after_init:
  "init ext w r paths tr = Inr ds \<Longrightarrow>
     close_db ds = Inl AttributeError \<and> list_all env_open (envs ds)"
  using init_inv[of ext w r paths tr ds] by (simp add: dataset_inv_def close_db_def)





subsection \<open>Facts about the collater\<close>




subsection \<open>Facts about the partition of the shards\<close>

lemma num_full_dbs_le: "num_full_dbs paths w \<le> length paths"
  by (simp add: num_full_dbs_def)

lemma num_full_dbs_dvd: "w dvd num_full_dbs paths w"
  unfolding num_full_dbs_def by (metis dvd_minus_mod)

lemma full_db_paths_set:
  assumes w: "0 < w"
  shows "set (full_db_paths paths w r) =
           {paths ! i |i. r \<le> i \<and> i < num_full_dbs paths w \<and> i mod w = r mod w}"
proof -
  let ?n = "num_full_dbs paths w"
  have m: "min ?n (length paths) = ?n" using num_full_dbs_le[of paths w] by simp
  have s: "set (py_range (int r) (int ?n) (int w)) =
      {i. int r \<le> i \<and> i < int ?n \<and> (i - int r) mod int w = 0}"
    using w by (simp add: py_range_set)
  have "(\<lambda>i. paths ! nat i) ` {i. int r \<le> i \<and> i < int ?n \<and> (i - int r) mod int w = 0} =
        {paths ! i |i. r \<le> i \<and> i < ?n \<and> i mod w = r mod w}"
  proof (rule set_eqI, rule iffI)
    fix x assume "x \<in> (\<lambda>i. paths ! nat i) ` {i. int r \<le> i \<and> i < int ?n \<and> (i - int r) mod int w = 0}"
    then obtain i where i: "int r \<le> i" "i < int ?n" "(i - int r) mod int w = 0"
      and x: "x = paths ! nat i" by auto
    from i(1) have ii: "int (nat i) = i" by simp
    have "int w dvd i - int r" using i(3) by (simp add: dvd_eq_mod_eq_0)
    then have "i mod int w = int r mod int w" by (simp add: mod_eq_dvd_iff)
    then have "int (nat i mod w) = int (r mod w)" using ii by (simp add: zmod_int)
    then have "nat i mod w = r mod w" by simp
    moreover have "r \<le> nat i" "nat i < ?n" using i by simp_all
    ultimately show "x \<in> {paths ! i |i. r \<le> i \<and> i < ?n \<and> i mod w = r mod w}"
      using x by blast
  next
    fix x assume "x \<in> {paths ! i |i. r \<le> i \<and> i < ?n \<and> i mod w = r mod w}"
    then obtain i where i: "r \<le> i" "i < ?n" "i mod w = r mod w" and x: "x = paths ! i"
      by blast
    have "int i mod int w = int r mod int w" using i(3) by (metis zmod_int)
    then have "(int i - int r) mod int w = 0" by (simp add: mod_eq_dvd_iff dvd_eq_mod_eq_0)
    then have "int i \<in> {i. int r \<le> i \<and> i < int ?n \<and> (i - int r) mod int w = 0}"
      using i by simp
    then have "paths ! nat (int i) \<in>
        (\<lambda>i. paths ! nat i) ` {i. int r \<le> i \<and> i < int ?n \<and> (i - int r) mod int w = 0}"
      by (rule imageI)
    then show "x \<in> (\<lambda>i. paths ! nat i) ` {i. int r \<le> i \<and> i < int ?n \<and> (i - int r) mod int w = 0}"
      using x by simp
  qed
  then show ?thesis
    by (simp add: full_db_paths_def slice_step_def m s)
qed

lemma full_db_paths_closed:
  assumes w: "0 < w" and r: "r < w"
  shows "full_db_paths paths w r =
           map (\<lambda>k. paths ! (r + k * w)) [0..<num_full_dbs paths w div w]"
proof -
  let ?n = "num_full_dbs paths w"
  from num_full_dbs_dvd[of w paths] obtain q where "?n = w * q" unfolding dvd_def by blast
  then have q: "?n = q * w" by (simp add: mult.commute)
  have m: "min ?n (length paths) = ?n" using num_full_dbs_le[of paths w] by simp
  have "(int ?n - int r + int w - 1) div int w = int q"
  proof -
    have e: "int ?n - int r + int w - 1 = (int w - 1 - int r) + int q * int w"
      using q by simp
    have z: "(int w - 1 - int r) div int w = 0"
      using r by (simp add: div_pos_pos_trivial)
    have "int w \<noteq> 0" using w by simp
    then have d: "((int w - 1 - int r) + int q * int w) div int w =
        int q + (int w - 1 - int r) div int w"
      by (rule div_mult_self1)
    show ?thesis unfolding e d z by simp
  qed
  then have c: "nat ((int ?n - int r + int w - 1) div int w) = ?n div w"
    using q w by simp
  have "py_range (int r) (int ?n) (int w) = map (\<lambda>k. int r + int k * int w) [0..<?n div w]"
    using py_range_closed[of "int w" "int r" "int ?n"] w c by simp
  then have "full_db_paths paths w r = map (\<lambda>k. paths ! nat (int r + int k * int w)) [0..<?n div w]"
    by (simp add: full_db_paths_def slice_step_def m o_def)
  moreover have "\<And>k. nat (int r + int k * int w) = r + k * w"
    by (metis nat_int of_nat_add of_nat_mult)
  ultimately show ?thesis by simp
qed

lemma full_db_paths_disjoint:
  assumes w: "0 < w" and d: "distinct paths" and r: "r1 < w" "r2 < w" "r1 \<noteq> r2"
  shows "set (full_db_paths paths w r1) \<inter> set (full_db_paths paths w r2) = {}"
proof (rule ccontr)
  assume "set (full_db_paths paths w r1) \<inter> set (full_db_paths paths w r2) \<noteq> {}"
  then obtain x where "x \<in> set (full_db_paths paths w r1)" "x \<in> set (full_db_paths paths w r2)"
    by blast
  then obtain i j where i: "i < num_full_dbs paths w" "i mod w = r1 mod w" "x = paths ! i"
    and j: "j < num_full_dbs paths w" "j mod w = r2 mod w" "x = paths ! j"
    unfolding full_db_paths_set[OF w] by blast
  have "i < length paths" "j < length paths"
    using i(1) j(1) num_full_dbs_le[of paths w] by simp_all
  with d i(3) j(3) have "i = j" by (simp add: nth_eq_iff_index_eq)
  with i(2) j(2) r show False by simp
qed

lemma full_db_paths_union:
  assumes w: "0 < w"
  shows "(\<Union>r<w. set (full_db_paths paths w r)) = set (take (num_full_dbs paths w) paths)"
proof (rule set_eqI, rule iffI)
  let ?n = "num_full_dbs paths w"
  fix x assume "x \<in> (\<Union>r<w. set (full_db_paths paths w r))"
  then obtain r i where "i < ?n" "x = paths ! i"
    unfolding full_db_paths_set[OF w] by blast
  moreover have "?n \<le> length paths" by (rule num_full_dbs_le)
  ultimately have "i < length (take ?n paths)" "x = take ?n paths ! i" by simp_all
  then show "x \<in> set (take ?n paths)" by (metis nth_mem)
next
  let ?n = "num_full_dbs paths w"
  fix x assume "x \<in> set (take ?n paths)"
  then obtain i where i: "i < length (take ?n paths)" and x: "x = take ?n paths ! i"
    by (metis in_set_conv_nth)
  then have "i < ?n" "x = paths ! i" by simp_all
  moreover have "i mod w < w" using w by simp
  moreover have "i mod w \<le> i" by simp
  ultimately have "x \<in> set (full_db_paths paths w (i mod w))"
    unfolding full_db_paths_set[OF w] by auto
  with \<open>i mod w < w\<close> show "x \<in> (\<Union>r<w. set (full_db_paths paths w r))" by blast
qed

section \<open>The claims\<close>

text \<open>
  C3 (as amended). With \<^verbatim>\<open>world_size = 3\<close> and a shared shard whose declared length
  is 10, the trimmed length is 9 and the owned keys are 0, 3, 6 for rank 0, 1, 4, 7 for
  rank 1 and 2, 5, 8 for rank 2: key 9 is owned by no rank.
\<close>

theorem shared_keys_world3_length10:
  "shared_keys 3 0 10 = [0, 3, 6] \<and> shared_keys 3 1 10 = [1, 4, 7] \<and>
   shared_keys 3 2 10 = [2, 5, 8] \<and>
   9 \<notin> set (shared_keys 3 0 10) \<union> set (shared_keys 3 1 10) \<union> set (shared_keys 3 2 10)"
  by (simp add: shared_keys_def py_range.simps)

text \<open>
  C3 as the specification states it fails: rank 0 does not own key 9.
\<close>

theorem shared_keys_rank0_not_0369:
  "shared_keys 3 0 10 \<noteq> [0, 3, 6, 9]"
  by (simp add: shared_keys_def py_range.simps)

text \<open>
  C1. For a dataset built by \<^verbatim>\<open>__init__\<close> and a global index in \<open>[0, num_samples)\<close>:
  the cumulative lengths are non-decreasing; the shard index that \<^verbatim>\<open>__getitem__\<close>
  computes is the first position whose cumulative length strictly exceeds the index; the
  local offset is the index minus the previous cumulative length (minus 0 for the first
  shard); and the key fetched is \<^verbatim>\<open>_keys[shard_index][local_offset]\<close>, read from
  \<^verbatim>\<open>envs[shard_index]\<close>.
\<close>

theorem getitem_resolves_by_upper_bound:
  assumes "init ext w r paths tr = Inr ds" and "0 \<le> idx" and "idx < num_samples ds"
  shows "mono_list (keylen_cumulative ds) \<and>
    (let shard_index = fst (locate ds idx); local_offset = snd (locate ds idx) in
       shard_index < length (keylen_cumulative ds) \<and>
       idx < keylen_cumulative ds ! shard_index \<and>
       (\<forall>j<shard_index. keylen_cumulative ds ! j \<le> idx) \<and>
       local_offset =
         idx - (if 0 < shard_index then keylen_cumulative ds ! (shard_index - 1) else 0) \<and>
       0 \<le> local_offset \<and>
       lookup_key ds shard_index (nat local_offset) =
         Inr (envs ds ! shard_index, keys ds ! shard_index ! nat local_offset) \<and>
       getitem ext ds idx =
         (case pickle_loads ext (env_db (envs ds ! shard_index)
                  (str_int (keys ds ! shard_index ! nat local_offset))) of
            Inl e \<Rightarrow> Inl e
          | Inr obj \<Rightarrow>
             (case apply_transform (transform ds) obj of
                Inl e \<Rightarrow> Inl e
              | Inr obj' \<Rightarrow> set_id obj' (id_string shard_index local_offset))))"
proof -
  note inv = init_inv[OF assms(1)]
  have m: "mono_list (keylen_cumulative ds)"
    using mono_cumsum[OF keylens_nonneg[OF inv]] inv by (simp add: dataset_inv_def)
  have off: "snd (locate ds idx) =
      idx - (if 0 < fst (locate ds idx)
             then keylen_cumulative ds ! (fst (locate ds idx) - 1) else 0)"
    by (subst locate_snd) simp
  have nn: "0 \<le> snd (locate ds idx)" using locate_in_range[OF inv assms(2,3)] by simp
  show ?thesis
    unfolding Let_def
    using m locate_first_exceeding[OF inv assms(2,3)] off nn
      lookup_key_in_range[OF inv assms(2,3)]
      getitem_in_range_expanded[OF inv assms(2,3), of ext]
    by blast
qed

text \<open>The instance of C1 at index 6 of the two shards of lengths 5 and 3.\<close>

theorem getitem_resolves_by_upper_bound_witness:
  "init demo_ext 1 0 [''a.lmdb'', ''b.lmdb''] None = Inr demo_ds \<and>
   (0::int) \<le> 6 \<and> 6 < num_samples demo_ds \<and>
   mono_list (keylen_cumulative demo_ds) \<and>
   locate demo_ds 6 = (1, 1) \<and>
   lookup_key demo_ds 1 1 =
     Inr (\<lparr>env_path = ''b.lmdb'', env_db = demo_store ''3'', env_open = True\<rparr>, 1) \<and>
   getitem demo_ext demo_ds 6 =
     Inr (PyData ((demo_record ''record 1'')\<lparr>id_attr := Some ''1_1''\<rparr>))"
proof -
  have r: "(0::int) \<le> 6" "6 < num_samples demo_ds" by (simp_all add: demo_ds_def)
  have k: "keys demo_ds ! Suc 0 ! Suc 0 = 1"
    "env_db (envs demo_ds ! Suc 0) = demo_store ''3''" "transform demo_ds = None"
    "envs demo_ds ! Suc 0 = \<lparr>env_path = ''b.lmdb'', env_db = demo_store ''3'', env_open = True\<rparr>"
    by (simp_all add: demo_ds_def)
  have s: "id_string (Suc 0) 1 = ''1_1''"
    by (simp add: id_string_def str_int_digits)
  from getitem_resolves_by_upper_bound[OF demo_init r]
  show ?thesis
    using r demo_init
    by (simp add: demo_locate6 k s str_int_digits demo_store_simps demo_ext_simps
        pickle_loads_def apply_transform_def)
qed

text \<open>
  C10. For a dataset built by \<^verbatim>\<open>__init__\<close> and a global index in \<open>[0, num_samples)\<close>:
  the shard chosen by the bisect exists and has a non-empty key list, the offset is within
  that list, so neither list access of line 84 and 85 raises; a shard with an empty key
  list is never chosen; and a shared shard whose declared length is below
  \<^verbatim>\<open>world_size\<close> has an empty key list for every rank.
\<close>

theorem resolved_lookup_in_bounds:
  assumes "init ext w r paths tr = Inr ds" and "0 \<le> idx" and "idx < num_samples ds"
  shows "fst (locate ds idx) < length (keys ds) \<and>
         fst (locate ds idx) < length (envs ds) \<and>
         keys ds ! fst (locate ds idx) \<noteq> [] \<and>
         0 \<le> snd (locate ds idx) \<and>
         snd (locate ds idx) < int (length (keys ds ! fst (locate ds idx))) \<and>
         lookup_key ds (fst (locate ds idx)) (nat (snd (locate ds idx))) \<noteq> Inl IndexError \<and>
         (\<forall>s<length (keys ds). keys ds ! s = [] \<longrightarrow> fst (locate ds idx) \<noteq> s) \<and>
         (\<forall>rank' l. l < int w \<longrightarrow> shared_keys w rank' l = [])"
proof -
  note inv = init_inv[OF assms(1)]
  note L = locate_in_range[OF inv assms(2,3)]
  have e: "length (envs ds) = length (keys ds)" using inv by (simp add: dataset_inv_def)
  have ne: "keys ds ! fst (locate ds idx) \<noteq> []" using L by auto
  have w: "0 < w" using init_Inr[OF assms(1)] by simp
  have lk: "lookup_key ds (fst (locate ds idx)) (nat (snd (locate ds idx))) \<noteq> Inl IndexError"
    unfolding lookup_key_in_range[OF inv assms(2,3)] by simp
  have sk: "\<forall>rank' l. l < int w \<longrightarrow> shared_keys w rank' l = []"
    using shared_keys_short[OF w] by blast
  from L e ne lk sk show ?thesis by auto
qed

text \<open>The instance of C10 for rank 0 of 3 with two shared shards of declared lengths 2 and
  3: the first contributes no key, and index 0 is found in the second.\<close>

theorem resolved_lookup_in_bounds_witness:
  "init demo_ext 3 0 [''s.lmdb'', ''b.lmdb''] None = Inr demo_ds3 \<and>
   keys demo_ds3 = [[], [0]] \<and> keylen_cumulative demo_ds3 = [0, 1] \<and>
   (0::int) \<le> 0 \<and> 0 < num_samples demo_ds3 \<and>
   locate demo_ds3 0 = (1, 0) \<and>
   keys demo_ds3 ! fst (locate demo_ds3 0) \<noteq> [] \<and>
   lookup_key demo_ds3 (fst (locate demo_ds3 0)) (nat (snd (locate demo_ds3 0))) \<noteq> Inl IndexError \<and>
   shared_keys 3 0 2 = []"
proof -
  have r: "(0::int) \<le> 0" "0 < num_samples demo_ds3" by (simp_all add: demo_ds3_def)
  have k: "keys demo_ds3 = [[], [0]]" "keylen_cumulative demo_ds3 = [0, 1]"
    by (simp_all add: demo_ds3_def)
  from resolved_lookup_in_bounds[OF demo_init3 r]
  show ?thesis using r k demo_init3 demo3_locate0 by simp
qed

text \<open>
  C2. For a dataset built by \<^verbatim>\<open>__init__\<close>, the map from a global index to the pair
  (shard index, local offset) that \<^verbatim>\<open>__getitem__\<close> computes is a bijection from
  \<open>[0, num_samples)\<close> onto the pairs \<open>(s, o)\<close> with \<open>s\<close> a shard position and
  \<open>o < len(_keys[s])\<close>.
\<close>

theorem locate_bijection:
  assumes "init ext w r paths tr = Inr ds"
  shows "bij_betw (\<lambda>idx. (fst (locate ds idx), nat (snd (locate ds idx))))
           {0..<num_samples ds}
           {(s, off). s < length (keys ds) \<and> off < length (keys ds ! s)}"
proof -
  note inv = init_inv[OF assms]
  let ?f = "\<lambda>idx. (fst (locate ds idx), nat (snd (locate ds idx)))"
  let ?B = "{(s, off). s < length (keys ds) \<and> off < length (keys ds ! s)}"
  have cum: "keylen_cumulative ds = cumsum (keylens ds)"
    and n: "num_samples ds = sum_list (keylens ds)"
    and kl: "keylens ds = map (\<lambda>k. int (length k)) (keys ds)"
    using inv by (simp_all add: dataset_inv_def)
  have nn: "\<forall>x\<in>set (keylens ds). 0 \<le> x" by (rule keylens_nonneg[OF inv])
  have inj: "inj_on ?f {0..<num_samples ds}"
  proof (rule inj_onI)
    fix x y assume x: "x \<in> {0..<num_samples ds}" and y: "y \<in> {0..<num_samples ds}"
      and eq: "?f x = ?f y"
    from x have Lx: "snd (locate ds x) = x - sum_list (take (fst (locate ds x)) (keylens ds))"
      "0 \<le> snd (locate ds x)"
      using locate_in_range[OF inv, of x] by simp_all
    from y have Ly: "snd (locate ds y) = y - sum_list (take (fst (locate ds y)) (keylens ds))"
      "0 \<le> snd (locate ds y)"
      using locate_in_range[OF inv, of y] by simp_all
    from eq have "fst (locate ds x) = fst (locate ds y)"
      and "nat (snd (locate ds x)) = nat (snd (locate ds y))" by simp_all
    with Lx Ly show "x = y" by simp
  qed
  have img: "?f ` {0..<num_samples ds} = ?B"
  proof (rule set_eqI)
    fix p :: "nat \<times> nat"
    obtain s off where p: "p = (s, off)" by (cases p)
    show "p \<in> ?f ` {0..<num_samples ds} \<longleftrightarrow> p \<in> ?B"
    proof
      assume "p \<in> ?f ` {0..<num_samples ds}"
      then obtain idx where idx: "0 \<le> idx" "idx < num_samples ds" and pf: "p = ?f idx"
        by auto
      from locate_in_range[OF inv idx] pf show "p \<in> ?B" by auto
    next
      assume "p \<in> ?B"
      with p have s: "s < length (keys ds)" and o: "off < length (keys ds ! s)" by simp_all
      let ?idx = "sum_list (take s (keylens ds)) + int off"
      have s': "s < length (keylens ds)" using s kl by simp
      have ks: "keylens ds ! s = int (length (keys ds ! s))" using s kl by simp
      have t0: "0 \<le> sum_list (take s (keylens ds))"
        using nn by (meson in_set_takeD sum_list_nonneg)
      have "sum_list (take (Suc s) (keylens ds)) \<le> sum_list (keylens ds)"
        by (rule sum_list_take_le[OF nn])
      then have t1: "sum_list (take s (keylens ds)) + keylens ds ! s \<le> num_samples ds"
        using s' n by (simp add: take_Suc_conv_app_nth)
      have lo: "0 \<le> ?idx" using t0 by simp
      have hi: "?idx < num_samples ds" using t1 ks o by simp
      have b: "bisect (cumsum (keylens ds)) ?idx = s"
        by (rule bisect_cumsum_unique[OF nn s']) (use ks o in simp_all)
      then have fs: "fst (locate ds ?idx) = s" by (simp add: locate_fst cum)
      have "snd (locate ds ?idx) = ?idx - sum_list (take s (keylens ds))"
        using locate_in_range[OF inv lo hi] fs by simp
      then have "?f ?idx = (s, off)" using fs by simp
      moreover have "?idx \<in> {0..<num_samples ds}" using lo hi by simp
      ultimately show "p \<in> ?f ` {0..<num_samples ds}" using p by (metis (no_types, lifting) image_eqI)
    qed
  qed
  show ?thesis unfolding bij_betw_def using inj img by blast
qed

text \<open>The instance of C2 for the two shards of lengths 5 and 3 owned by a single rank:
  the eight indices correspond to the eight pairs.\<close>

theorem locate_bijection_witness:
  "bij_betw (\<lambda>idx. (fst (locate demo_ds idx), nat (snd (locate demo_ds idx))))
     {0..<8} {(s, off). s < 2 \<and> off < length ([[0::int, 1, 2, 3, 4], [0, 1, 2]] ! s)}"
proof -
  have n: "num_samples demo_ds = 8" and k: "keys demo_ds = [[0, 1, 2, 3, 4], [0, 1, 2]]"
    by (simp_all add: demo_ds_def)
  have l: "length [[0::int, 1, 2, 3, 4], [0, 1, 2]] = 2" by simp
  from locate_bijection[OF demo_init] show ?thesis unfolding n k l .
qed

text \<open>
  C5. For a dataset built by \<^verbatim>\<open>__init__\<close> with \<open>num_samples = N\<close>: \<^verbatim>\<open>get(N)\<close> raises
  \<^verbatim>\<open>IndexError\<close>, as does every index from \<open>N\<close> on; \<^verbatim>\<open>get(-1)\<close> fails the
  assertion \<^verbatim>\<open>el_idx >= 0\<close>, as does every negative index; and when \<open>N > 0\<close> the
  indices \<open>0\<close> and \<open>N - 1\<close> resolve to a stored key, and return a record once the
  stores hold the records of their owned keys.
\<close>

theorem getitem_boundaries:
  assumes "init ext w r paths tr = Inr ds"
  shows "getitem ext ds (num_samples ds) = Inl IndexError \<and>
         getitem ext ds (- 1) = Inl AssertionError \<and>
         (\<forall>idx\<ge>num_samples ds. getitem ext ds idx = Inl IndexError) \<and>
         (\<forall>idx<0. getitem ext ds idx = Inl AssertionError) \<and>
         (0 < num_samples ds \<longrightarrow>
            (\<exists>h k. lookup_key ds (fst (locate ds 0)) (nat (snd (locate ds 0))) = Inr (h, k)) \<and>
            (\<exists>h k. lookup_key ds (fst (locate ds (num_samples ds - 1)))
                     (nat (snd (locate ds (num_samples ds - 1)))) = Inr (h, k))) \<and>
         (0 < num_samples ds \<and> records_present ext ds \<longrightarrow>
            (\<exists>d. getitem ext ds 0 = Inr (PyData d)) \<and>
            (\<exists>d. getitem ext ds (num_samples ds - 1) = Inr (PyData d)))"
proof -
  note inv = init_inv[OF assms]
  have a: "getitem ext ds (num_samples ds) = Inl IndexError"
    by (rule getitem_past_end[OF inv]) simp
  have b: "getitem ext ds (- 1) = Inl AssertionError"
    by (rule getitem_negative[OF inv]) simp
  have c: "\<forall>idx\<ge>num_samples ds. getitem ext ds idx = Inl IndexError"
    using getitem_past_end[OF inv] by blast
  have d: "\<forall>idx<0. getitem ext ds idx = Inl AssertionError"
    using getitem_negative[OF inv] by blast
  have e: "0 < num_samples ds \<longrightarrow>
            (\<exists>h k. lookup_key ds (fst (locate ds 0)) (nat (snd (locate ds 0))) = Inr (h, k)) \<and>
            (\<exists>h k. lookup_key ds (fst (locate ds (num_samples ds - 1)))
                     (nat (snd (locate ds (num_samples ds - 1)))) = Inr (h, k))"
  proof
    assume n: "0 < num_samples ds"
    have "lookup_key ds (fst (locate ds 0)) (nat (snd (locate ds 0))) =
        Inr (envs ds ! fst (locate ds 0), keys ds ! fst (locate ds 0) ! nat (snd (locate ds 0)))"
      by (rule lookup_key_in_range[OF inv]) (use n in simp_all)
    moreover have "lookup_key ds (fst (locate ds (num_samples ds - 1)))
                     (nat (snd (locate ds (num_samples ds - 1)))) =
        Inr (envs ds ! fst (locate ds (num_samples ds - 1)),
             keys ds ! fst (locate ds (num_samples ds - 1))
               ! nat (snd (locate ds (num_samples ds - 1))))"
      by (rule lookup_key_in_range[OF inv]) (use n in simp_all)
    ultimately show "(\<exists>h k. lookup_key ds (fst (locate ds 0)) (nat (snd (locate ds 0))) = Inr (h, k)) \<and>
            (\<exists>h k. lookup_key ds (fst (locate ds (num_samples ds - 1)))
                     (nat (snd (locate ds (num_samples ds - 1)))) = Inr (h, k))"
      by blast
  qed
  have f: "0 < num_samples ds \<and> records_present ext ds \<longrightarrow>
            (\<exists>d. getitem ext ds 0 = Inr (PyData d)) \<and>
            (\<exists>d. getitem ext ds (num_samples ds - 1) = Inr (PyData d))"
  proof
    assume h: "0 < num_samples ds \<and> records_present ext ds"
    then have "\<exists>d. getitem ext ds 0 = Inr (PyData d)"
      using getitem_succeeds[OF inv, of 0 ext] by simp
    moreover have "\<exists>d. getitem ext ds (num_samples ds - 1) = Inr (PyData d)"
      using h getitem_succeeds[OF inv, of "num_samples ds - 1" ext] by simp
    ultimately show "(\<exists>d. getitem ext ds 0 = Inr (PyData d)) \<and>
            (\<exists>d. getitem ext ds (num_samples ds - 1) = Inr (PyData d))" by blast
  qed
  from a b c d e f show ?thesis by blast
qed

text \<open>The instance of C5 for the two shards of lengths 5 and 3 (\<open>N = 8\<close>).\<close>

theorem getitem_boundaries_witness:
  "init demo_ext 1 0 [''a.lmdb'', ''b.lmdb''] None = Inr demo_ds \<and>
   num_samples demo_ds = 8 \<and> records_present demo_ext demo_ds \<and>
   getitem demo_ext demo_ds 8 = Inl IndexError \<and>
   getitem demo_ext demo_ds (- 1) = Inl AssertionError \<and>
   (\<exists>d. getitem demo_ext demo_ds 0 = Inr (PyData d)) \<and>
   (\<exists>d. getitem demo_ext demo_ds 7 = Inr (PyData d))"
proof -
  have n: "num_samples demo_ds = 8" by (simp add: demo_ds_def)
  from getitem_boundaries[OF demo_init]
  show ?thesis using demo_init demo_records_present n by simp
qed

text \<open>
  C6. For a dataset built by \<^verbatim>\<open>__init__\<close> with the transform \<open>tr\<close>, an index in range and
  the record \<open>obj\<close> deserialised from the key that the index resolves to:
  when a transform \<open>f\<close> is configured, \<^verbatim>\<open>__getitem__\<close> returns the result of \<open>f\<close> on
  \<open>obj\<close> with its \<^verbatim>\<open>id\<close> set to \<^verbatim>\<open>"{db_idx}_{el_idx}"\<close>, and raises what \<open>f\<close> raises;
  when none is configured it returns \<open>obj\<close> with that \<^verbatim>\<open>id\<close>; every record returned
  carries that \<^verbatim>\<open>id\<close>, built from the shard index and the offset inside the shard's key
  list, whatever \<^verbatim>\<open>id\<close> it had. With two shards of declared lengths 5 and 3 owned by a
  single rank, index 6 resolves to shard 1 and offset 1, and the \<^verbatim>\<open>id\<close> is \<^verbatim>\<open>"1_1"\<close>.
\<close>

theorem getitem_stamps_id:
  assumes "init ext w r paths tr = Inr ds" and "0 \<le> idx" and "idx < num_samples ds"
    and "locate ds idx = (db_idx, el_idx)"
    and "env_db (envs ds ! db_idx) (str_int (keys ds ! db_idx ! nat el_idx)) = Some bs"
    and "loads ext bs = Inr obj"
  shows "(\<forall>f d. tr = Some f \<and> f obj = Inr (PyData d) \<longrightarrow>
            getitem ext ds idx =
              Inr (PyData (d\<lparr>id_attr := Some (str_int (int db_idx) @ ''_'' @ str_int el_idx)\<rparr>))) \<and>
         (\<forall>f e. tr = Some f \<and> f obj = Inl e \<longrightarrow> getitem ext ds idx = Inl e) \<and>
         (\<forall>d. tr = None \<and> obj = PyData d \<longrightarrow>
            getitem ext ds idx =
              Inr (PyData (d\<lparr>id_attr := Some (str_int (int db_idx) @ ''_'' @ str_int el_idx)\<rparr>))) \<and>
         (\<forall>rec. getitem ext ds idx = Inr (PyData rec) \<longrightarrow>
            id_attr rec = Some (str_int (int db_idx) @ ''_'' @ str_int el_idx)) \<and>
         (\<forall>p0 p1 st0 st1 b0 b1.
            w = 1 \<and> r = 0 \<and> paths = [p0, p1] \<and> idx = 6 \<and>
            lmdb_open ext p0 = Inr st0 \<and> st0 ''length'' = Some b0 \<and>
            loads ext b0 = Inr (PyInt 5) \<and>
            lmdb_open ext p1 = Inr st1 \<and> st1 ''length'' = Some b1 \<and>
            loads ext b1 = Inr (PyInt 3) \<longrightarrow>
            db_idx = 1 \<and> el_idx = 1 \<and>
            str_int (int db_idx) @ ''_'' @ str_int el_idx = ''1_1'')"
proof -
  note inv = init_inv[OF assms(1)]
  let ?id = "str_int (int db_idx) @ ''_'' @ str_int el_idx"
  have tr: "transform ds = tr" using init_Inr[OF assms(1)] by simp
  have fs: "fst (locate ds idx) = db_idx" "snd (locate ds idx) = el_idx"
    using assms(4) by simp_all
  have g: "getitem ext ds idx =
      (case apply_transform tr obj of Inl e \<Rightarrow> Inl e | Inr obj' \<Rightarrow> set_id obj' ?id)"
    unfolding getitem_in_range_expanded[OF inv assms(2,3)] fs assms(5) tr id_string_def
    by (simp add: pickle_loads_def assms(6))
  have a: "\<forall>f d. tr = Some f \<and> f obj = Inr (PyData d) \<longrightarrow>
      getitem ext ds idx = Inr (PyData (d\<lparr>id_attr := Some ?id\<rparr>))"
    by (simp add: g apply_transform_def)
  have b: "\<forall>f e. tr = Some f \<and> f obj = Inl e \<longrightarrow> getitem ext ds idx = Inl e"
    by (simp add: g apply_transform_def)
  have c: "\<forall>d. tr = None \<and> obj = PyData d \<longrightarrow>
      getitem ext ds idx = Inr (PyData (d\<lparr>id_attr := Some ?id\<rparr>))"
    by (simp add: g apply_transform_def)
  have d: "\<forall>rec. getitem ext ds idx = Inr (PyData rec) \<longrightarrow> id_attr rec = Some ?id"
  proof (intro allI impI)
    fix rec assume "getitem ext ds idx = Inr (PyData rec)"
    then obtain obj' where "set_id obj' ?id = Inr (PyData rec)"
      unfolding g by (cases "apply_transform tr obj") simp_all
    then show "id_attr rec = Some ?id" by (rule set_id_stamps)
  qed
  have sc: "\<forall>p0 p1 st0 st1 b0 b1.
            w = 1 \<and> r = 0 \<and> paths = [p0, p1] \<and> idx = 6 \<and>
            lmdb_open ext p0 = Inr st0 \<and> st0 ''length'' = Some b0 \<and>
            loads ext b0 = Inr (PyInt 5) \<and>
            lmdb_open ext p1 = Inr st1 \<and> st1 ''length'' = Some b1 \<and>
            loads ext b1 = Inr (PyInt 3) \<longrightarrow>
            db_idx = 1 \<and> el_idx = 1 \<and> ?id = ''1_1''"
  proof (intro allI impI)
    fix p0 p1 st0 st1 b0 b1
    assume h: "w = 1 \<and> r = 0 \<and> paths = [p0, p1] \<and> idx = 6 \<and>
            lmdb_open ext p0 = Inr st0 \<and> st0 ''length'' = Some b0 \<and>
            loads ext b0 = Inr (PyInt 5) \<and>
            lmdb_open ext p1 = Inr st1 \<and> st1 ''length'' = Some b1 \<and>
            loads ext b1 = Inr (PyInt 3)"
    then have i: "init ext 1 0 [p0, p1] tr = Inr ds" using assms(1) by simp
    from two_shards_5_3[OF i] h have cum: "keylen_cumulative ds = [5, 8]" by blast
    have "locate ds 6 = (1, 1)"
      by (simp add: locate_def cum bisect_def bisect_loop.simps Let_def)
    with assms(4) h have de: "db_idx = 1" "el_idx = 1" by simp_all
    have "?id = ''1_1''"
      using id_string_1_1 unfolding de id_string_def by simp
    with de show "db_idx = 1 \<and> el_idx = 1 \<and> ?id = ''1_1''" by simp
  qed
  from a b c d sc show ?thesis by blast
qed

text \<open>Two instances of C6. Rank 1 of 2 over the shared shard \<open>a\<close> with a transform
  configured: index 1 is offset 1 of shard 0 and reads the key 3; the record returned is
  the transform's result, and its \<^verbatim>\<open>id\<close> is \<^verbatim>\<open>"0_1"\<close>, neither the stored one, nor the
  transform's, nor the key. The two shards of declared lengths 5 and 3 without a
  transform: index 6 returns the stored record with the \<^verbatim>\<open>id\<close> \<^verbatim>\<open>"1_1"\<close>.\<close>

theorem getitem_stamps_id_witness:
  "init demo_ext 2 1 [''a.lmdb''] (Some demo_transform) = Inr demo_ds_shared \<and>
   locate demo_ds_shared 1 = (0, 1) \<and> keys demo_ds_shared ! 0 ! 1 = 3 \<and>
   demo_transform (PyData (demo_record ''record 3'')) =
     Inr (PyData \<lparr>id_attr = Some ''set by transform'',
                   edge_index = Inr (Some [[0, 1, 2], [1, 2, 0]]),
                   payload = ''transformed record 3''\<rparr>) \<and>
   getitem demo_ext demo_ds_shared 1 =
     Inr (PyData \<lparr>id_attr = Some ''0_1'', edge_index = Inr (Some [[0, 1, 2], [1, 2, 0]]),
                   payload = ''transformed record 3''\<rparr>) \<and>
   init demo_ext 1 0 [''a.lmdb'', ''b.lmdb''] None = Inr demo_ds \<and>
   locate demo_ds 6 = (1, 1) \<and>
   id_attr (demo_record ''record 1'') = Some ''stale'' \<and>
   getitem demo_ext demo_ds 6 =
     Inr (PyData ((demo_record ''record 1'')\<lparr>id_attr := Some ''1_1''\<rparr>))"
proof -
  have r1: "(0::int) \<le> 1" "1 < num_samples demo_ds_shared"
    by (simp_all add: demo_ds_shared_def)
  have k3: "keys demo_ds_shared ! 0 ! 1 = 3" by (simp add: demo_ds_shared_def)
  have k1: "env_db (envs demo_ds_shared ! 0) (str_int (keys demo_ds_shared ! 0 ! nat 1)) =
      Some ''record 3''"
    by (simp add: demo_ds_shared_def str_int_digits demo_store_simps)
  have l1: "loads demo_ext ''record 3'' = Inr (PyData (demo_record ''record 3''))"
    by (simp add: demo_ext_simps)
  have t1: "demo_transform (PyData (demo_record ''record 3'')) =
     Inr (PyData \<lparr>id_attr = Some ''set by transform'',
                   edge_index = Inr (Some [[0, 1, 2], [1, 2, 0]]),
                   payload = ''transformed record 3''\<rparr>)"
    by (simp add: demo_transform_def demo_record_def)
  have s1: "str_int (int 0) @ ''_'' @ str_int 1 = ''0_1''"
    by (simp add: str_int_digits)
  from getitem_stamps_id[OF demo_init_shared r1 demo_shared_locate1 k1 l1] t1
  have "getitem demo_ext demo_ds_shared 1 =
     Inr (PyData (\<lparr>id_attr = Some ''set by transform'',
                    edge_index = Inr (Some [[0, 1, 2], [1, 2, 0]]),
                    payload = ''transformed record 3''\<rparr>
                  \<lparr>id_attr := Some (str_int (int 0) @ ''_'' @ str_int 1)\<rparr>))"
    by blast
  then have g1: "getitem demo_ext demo_ds_shared 1 =
     Inr (PyData \<lparr>id_attr = Some ''0_1'', edge_index = Inr (Some [[0, 1, 2], [1, 2, 0]]),
                   payload = ''transformed record 3''\<rparr>)"
    unfolding s1 by simp
  have r: "(0::int) \<le> 6" "6 < num_samples demo_ds" by (simp_all add: demo_ds_def)
  have k: "env_db (envs demo_ds ! 1) (str_int (keys demo_ds ! 1 ! nat 1)) = Some ''record 1''"
    by (simp add: demo_ds_def str_int_digits demo_store_simps)
  have l: "loads demo_ext ''record 1'' = Inr (PyData (demo_record ''record 1''))"
    by (simp add: demo_ext_simps)
  have o: "lmdb_open demo_ext ''a.lmdb'' = Inr (demo_store ''5'')"
    "lmdb_open demo_ext ''b.lmdb'' = Inr (demo_store ''3'')"
    "loads demo_ext ''5'' = Inr (PyInt 5)" "loads demo_ext ''3'' = Inr (PyInt 3)"
    "demo_store ''5'' ''length'' = Some ''5''" "demo_store ''3'' ''length'' = Some ''3''"
    by (simp_all add: demo_ext_simps demo_store_simps)
  note T = getitem_stamps_id[OF demo_init r demo_locate6 k l]
  from T have "getitem demo_ext demo_ds 6 =
     Inr (PyData ((demo_record ''record 1'')
            \<lparr>id_attr := Some (str_int (int 1) @ ''_'' @ str_int 1)\<rparr>))"
    by blast
  moreover from T o have "str_int (int 1) @ ''_'' @ str_int 1 = ''1_1''"
    by blast
  ultimately have g6: "getitem demo_ext demo_ds 6 =
     Inr (PyData ((demo_record ''record 1'')\<lparr>id_attr := Some ''1_1''\<rparr>))"
    by simp
  have st: "id_attr (demo_record ''record 1'') = Some ''stale''"
    by (simp add: demo_record_def)
  show ?thesis
    by (intro conjI) (fact demo_init_shared demo_shared_locate1 k3 t1 g1 demo_init
        demo_locate6 st g6)+
qed

text \<open>
  C7. \<^verbatim>\<open>close_db\<close> on the dataset built from the two shards \<open>a\<close> and \<open>b\<close>: the call
  raises \<^verbatim>\<open>AttributeError\<close>, since \<^verbatim>\<open>__init__\<close> stores the handles in
  \<^verbatim>\<open>self.envs\<close> and never assigns \<^verbatim>\<open>self.env\<close>; both handles stay open.
\<close>

theorem close_db_raises:
  "init demo_ext 1 0 [''a.lmdb'', ''b.lmdb''] None = Inr demo_ds \<and>
   close_db demo_ds = Inl AttributeError \<and>
   length (envs demo_ds) = 2 \<and> list_all env_open (envs demo_ds)"
  using close_db_after_init[OF demo_init] demo_init by (simp add: demo_ds_def)






text \<open>
  C4. For a positive \<^verbatim>\<open>world_size\<close> \<open>w\<close> and the listing \<open>paths\<close> of \<open>n\<close> distinct
  shard files, with \<open>num_full = n - n mod w\<close>: the exclusive shards of rank \<open>r < w\<close>
  are the shards at positions \<open>r, r + w, r + 2w, ...\<close> below \<open>num_full\<close>; the lists of
  two different ranks share no shard; together the ranks \<open>0, ..., w - 1\<close> hold exactly
  the shards \<open>paths[0 : num_full]\<close>; and in a dataset that \<^verbatim>\<open>__init__\<close> returns, the
  key list of each exclusive shard is \<open>0, ..., declared_length - 1\<close>.
\<close>

theorem exclusive_shards_partition:
  assumes "0 < w" and "distinct paths"
  shows "num_full_dbs paths w = length paths - length paths mod w \<and>
    (\<forall>r<w. full_db_paths paths w r =
       map (\<lambda>k. paths ! (r + k * w)) [0..<num_full_dbs paths w div w]) \<and>
    (\<forall>r1<w. \<forall>r2<w. r1 \<noteq> r2 \<longrightarrow>
       set (full_db_paths paths w r1) \<inter> set (full_db_paths paths w r2) = {}) \<and>
    (\<Union>r<w. set (full_db_paths paths w r)) = set (take (num_full_dbs paths w) paths) \<and>
    (\<forall>r ext tr ds. init ext w r paths tr = Inr ds \<longrightarrow>
       (\<forall>i<length (full_db_paths paths w r).
          db_paths ds ! i = full_db_paths paths w r ! i \<and>
          (\<exists>st b l. lmdb_open ext (full_db_paths paths w r ! i) = Inr st \<and>
             st ''length'' = Some b \<and> loads ext b = Inr (PyInt l) \<and>
             keys ds ! i = [0..l - 1])))"
proof -
  have a: "\<forall>r<w. full_db_paths paths w r =
       map (\<lambda>k. paths ! (r + k * w)) [0..<num_full_dbs paths w div w]"
    using full_db_paths_closed[OF assms(1)] by blast
  have b: "\<forall>r1<w. \<forall>r2<w. r1 \<noteq> r2 \<longrightarrow>
       set (full_db_paths paths w r1) \<inter> set (full_db_paths paths w r2) = {}"
    using full_db_paths_disjoint[OF assms] by blast
  have d: "\<forall>r ext tr ds. init ext w r paths tr = Inr ds \<longrightarrow>
       (\<forall>i<length (full_db_paths paths w r).
          db_paths ds ! i = full_db_paths paths w r ! i \<and>
          (\<exists>st b l. lmdb_open ext (full_db_paths paths w r ! i) = Inr st \<and>
             st ''length'' = Some b \<and> loads ext b = Inr (PyInt l) \<and>
             keys ds ! i = [0..l - 1]))"
  proof (intro allI impI)
    fix r ext tr ds i
    assume init: "init ext w r paths tr = Inr ds" and i: "i < length (full_db_paths paths w r)"
    have p: "db_paths ds = full_db_paths paths w r @ shared_db_paths paths w"
      using init_Inr[OF init] by simp
    then have pi: "db_paths ds ! i = full_db_paths paths w r ! i" and il: "i < length (db_paths ds)"
      using i by (simp_all add: nth_append)
    from init_shard[OF init il] obtain st b l where
      s: "lmdb_open ext (db_paths ds ! i) = Inr st" "st ''length'' = Some b"
      "loads ext b = Inr (PyInt l)" "keys ds ! i = shard_keys w r paths i l" by blast
    have "keys ds ! i = [0..l - 1]" using s(4) i by (simp add: shard_keys_def py_range_upto)
    with s pi show "db_paths ds ! i = full_db_paths paths w r ! i \<and>
          (\<exists>st b l. lmdb_open ext (full_db_paths paths w r ! i) = Inr st \<and>
             st ''length'' = Some b \<and> loads ext b = Inr (PyInt l) \<and>
             keys ds ! i = [0..l - 1])" by auto
  qed
  from a b d full_db_paths_union[OF assms(1), of paths] show ?thesis
    by (simp add: num_full_dbs_def)
qed

text \<open>Instances of C4: three shards over two ranks (the third is shared), and the two
  exclusive shards of the single-rank dataset.\<close>

theorem exclusive_shards_partition_witness:
  "full_db_paths [''a.lmdb'', ''b.lmdb'', ''s.lmdb''] 2 0 = [''a.lmdb''] \<and>
   full_db_paths [''a.lmdb'', ''b.lmdb'', ''s.lmdb''] 2 1 = [''b.lmdb''] \<and>
   set (full_db_paths [''a.lmdb'', ''b.lmdb'', ''s.lmdb''] 2 0) \<inter>
     set (full_db_paths [''a.lmdb'', ''b.lmdb'', ''s.lmdb''] 2 1) = {} \<and>
   (\<Union>r<2. set (full_db_paths [''a.lmdb'', ''b.lmdb'', ''s.lmdb''] 2 r)) =
     set (take 2 [''a.lmdb'', ''b.lmdb'', ''s.lmdb'']) \<and>
   init demo_ext 1 0 [''a.lmdb'', ''b.lmdb''] None = Inr demo_ds \<and>
   (\<exists>st b l. lmdb_open demo_ext ''b.lmdb'' = Inr st \<and> st ''length'' = Some b \<and>
      loads demo_ext b = Inr (PyInt l) \<and> keys demo_ds ! 1 = [0..l - 1]) \<and>
   keys demo_ds ! 1 = [0, 1, 2]"
proof -
  let ?P = "[''a.lmdb'', ''b.lmdb'', ''s.lmdb'']"
  have w: "(0::nat) < 2" "(0::nat) < 1" by simp_all
  have d: "distinct ?P" "distinct [''a.lmdb'', ''b.lmdb'']" by simp_all
  have n: "num_full_dbs ?P 2 = 2" by (simp add: num_full_dbs_def)
  have f: "full_db_paths ?P 2 0 = [''a.lmdb'']" "full_db_paths ?P 2 1 = [''b.lmdb'']"
    "full_db_paths [''a.lmdb'', ''b.lmdb''] 1 0 = [''a.lmdb'', ''b.lmdb'']"
    by (simp_all add: full_db_paths_def num_full_dbs_def slice_step_def py_range.simps)
  note T = exclusive_shards_partition[OF w(1) d(1)]
  from T have B: "\<forall>r1<2. \<forall>r2<2. r1 \<noteq> r2 \<longrightarrow>
       set (full_db_paths ?P 2 r1) \<inter> set (full_db_paths ?P 2 r2) = {}"
    by (elim conjE)
  have i: "set (full_db_paths ?P 2 0) \<inter> set (full_db_paths ?P 2 1) = {}"
    using B[rule_format, of 0 1] by simp
  from T have "(\<Union>r<2. set (full_db_paths ?P 2 r)) = set (take (num_full_dbs ?P 2) ?P)"
    by (elim conjE)
  then have u: "(\<Union>r<2. set (full_db_paths ?P 2 r)) = set (take 2 ?P)"
    unfolding n .
  note T1 = exclusive_shards_partition[OF w(2) d(2)]
  from T1 have D: "\<forall>r ext tr ds. init ext 1 r [''a.lmdb'', ''b.lmdb''] tr = Inr ds \<longrightarrow>
       (\<forall>i<length (full_db_paths [''a.lmdb'', ''b.lmdb''] 1 r).
          db_paths ds ! i = full_db_paths [''a.lmdb'', ''b.lmdb''] 1 r ! i \<and>
          (\<exists>st b l. lmdb_open ext (full_db_paths [''a.lmdb'', ''b.lmdb''] 1 r ! i) = Inr st \<and>
             st ''length'' = Some b \<and> loads ext b = Inr (PyInt l) \<and>
             keys ds ! i = [0..l - 1]))"
    by (elim conjE)
  have lt: "(1::nat) < length (full_db_paths [''a.lmdb'', ''b.lmdb''] 1 0)"
    unfolding f by simp
  have nth: "[''a.lmdb'', ''b.lmdb''] ! (1::nat) = ''b.lmdb''" by simp
  from D[rule_format, OF demo_init lt]
  have e: "\<exists>st b l. lmdb_open demo_ext ''b.lmdb'' = Inr st \<and>
      st ''length'' = Some b \<and> loads demo_ext b = Inr (PyInt l) \<and> keys demo_ds ! 1 = [0..l - 1]"
    unfolding f nth by (elim conjE)
  have k: "keys demo_ds ! 1 = [0, 1, 2]" by (simp add: demo_ds_def)
  show ?thesis
    by (intro conjI) (fact f(1) f(2) i u demo_init e k)+
qed

end
